theory Spec2Isabelle
  imports Main "HOL-Library.Sublist"
begin

section \<open>Torsel: a pool of Tor instances driving Selenium sessions\<close>

text \<open>
  A shallow embedding of \<^verbatim>\<open>src/torsel/torsel.py\<close>. Python integers are \<open>int\<close>. Every call
  that leaves the program (sockets, processes, the file system, the browser driver, the
  Tor control channel, the caller's functions) appends an event to a trace; what such a
  call answers, or whether it raises, is read from an environment that sees the trace so
  far, so that the same call may answer differently each time it is made. The calls that
  are taken to return are \<^verbatim>\<open>print\<close>, \<^verbatim>\<open>time.sleep\<close>, \<^verbatim>\<open>os.system\<close>, \<^verbatim>\<open>os.path.exists\<close>,
  \<^verbatim>\<open>os.path.join\<close>, leaving the \<^verbatim>\<open>with\<close> block of a socket or of a controller, and the
  construction and the start of a thread; every other one may raise.
\<close>

subsection \<open>Exceptions\<close>

datatype py_exn =
    ZeroDivisionError
  | QueueEmpty
  | ValueError
  | OverflowError
  | Exception string
  | BaseException string

text \<open>
  \<open>QueueEmpty\<close> is \<^verbatim>\<open>queue.Empty\<close>; \<open>OverflowError\<close> is what \<^verbatim>\<open>connect_ex\<close> raises for a
  port outside 0..65535; \<open>Exception s\<close> is any other exception derived from
  \<^verbatim>\<open>Exception\<close>, raised by a collaborator; \<open>BaseException s\<close> is one that is not
  (\<^verbatim>\<open>SystemExit\<close>, \<^verbatim>\<open>KeyboardInterrupt\<close>), which \<^verbatim>\<open>except Exception\<close> lets through.
\<close>

fun is_Exception :: "py_exn \<Rightarrow> bool" where
  "is_Exception (BaseException _) = False"
| "is_Exception _ = True"

definition py_mod :: "int \<Rightarrow> int \<Rightarrow> py_exn + int" where
  "py_mod a b = (if b = 0 then Inl ZeroDivisionError else Inr (a mod b))"

text \<open>\<^verbatim>\<open>range(start, stop, step)\<close> for a positive step, as the list it iterates over.\<close>

function py_range :: "int \<Rightarrow> int \<Rightarrow> int \<Rightarrow> int list" where
  "py_range start stop step =
     (if 0 < step \<and> start < stop then start # py_range (start + step) stop step else [])"
  by pat_completeness auto
termination
  by (relation "measure (\<lambda>(start, stop, step). nat (stop - start))") auto

declare py_range.simps [simp del]

subsection \<open>The object and its ports\<close>

record torsel =
  total_instances :: int
  max_threads :: int
  tor_base_port :: int
  tor_control_base_port :: int
  tor_path :: string
  tor_data_dir :: string
  headless :: bool
  verbose :: bool

text \<open>The object built by \<^verbatim>\<open>Torsel()\<close> with every argument left at its default.\<close>

definition Torsel :: torsel where
  "Torsel = \<lparr> total_instances = 10, max_threads = 5, tor_base_port = 9050,
     tor_control_base_port = 9151, tor_path = ''/usr/bin/tor'',
     tor_data_dir = ''/tmp/tor_profiles'', headless = True, verbose = True \<rparr>"

text \<open>
  The two port expressions of \<^verbatim>\<open>create_tor_instance\<close>, which
  \<^verbatim>\<open>configure_selenium_with_tor\<close> and \<^verbatim>\<open>rotate_tor_ip\<close> repeat:
  \<^verbatim>\<open>self.tor_base_port + instance_num * 10\<close> and
  \<^verbatim>\<open>self.tor_control_base_port + instance_num * 10\<close>.
\<close>

definition socks_port :: "torsel \<Rightarrow> int \<Rightarrow> int" where
  "socks_port self instance_num = tor_base_port self + instance_num * 10"

definition control_port :: "torsel \<Rightarrow> int \<Rightarrow> int" where
  "control_port self instance_num = tor_control_base_port self + instance_num * 10"

subsection \<open>Events and the environment\<close>

datatype message =
    Msg_cleaning
  | Msg_cleanup_completed
  | Msg_creating int
  | Msg_created int
  | Msg_rotated int
  | Msg_not_accessible int int
  | Msg_retrying int int py_exn

text \<open>
  One event per call that leaves the program, in the order the calls are made. A driver
  is named by the position of the event that built it, so no two sessions share a name.
\<close>

type_synonym driver = nat

datatype event =
    Print message
  | Sleep nat
  | Killall
  | Socket
  | Connect int bool
  | Fuser int
  | PathExists bool
  | Rmtree
  | Makedirs int
  | WriteTorrc int int int
  | Popen int
  | Chrome int bool
  | UserFunction driver int int
  | Quit driver
  | FromPort int
  | Authenticate int
  | Signal_NEWNYM int
  | Close int
  | CheckStop "py_exn + bool"
  | Put int
  | Get int
  | GetNowait int
  | Start nat
  | Join nat

text \<open>
  \<open>Socket\<close>: \<^verbatim>\<open>socket.socket(AF_INET, SOCK_STREAM)\<close>. \<open>Connect p b\<close>:
  \<^verbatim>\<open>connect_ex(('127.0.0.1', p))\<close> has returned, and whether it answered 0.
  \<open>CheckStop r\<close>: the stop check was called, and what it answered or raised.
  \<open>Makedirs\<close>, \<open>WriteTorrc\<close> and \<open>Popen\<close> carry the instance number (and the two ports
  written to the file), \<open>Chrome\<close> the proxy port and the headless flag, \<open>UserFunction\<close> the
  driver, the action and the instance it is called with. \<open>Put\<close>, \<open>Get\<close> and \<open>GetNowait\<close>
  are the operations on the shared queue, \<open>Start\<close> and \<open>Join\<close> those on the worker threads.
\<close>

type_synonym trace = "event list"

record env =
  port_open :: "trace \<Rightarrow> int \<Rightarrow> bool"
  path_exists :: "trace \<Rightarrow> bool"
  fails :: "trace \<Rightarrow> event \<Rightarrow> py_exn option"

text \<open>
  \<open>fails env tr ev\<close> tells whether the call \<open>ev\<close>, made after the history \<open>tr\<close>, raises.
  The caller's two functions are arguments of \<^verbatim>\<open>run\<close>: the user function either returns
  or raises, the stop check answers a truth value or raises.
\<close>

type_synonym user_fn = "trace \<Rightarrow> int \<Rightarrow> int \<Rightarrow> py_exn option"
type_synonym stop_fn = "trace \<Rightarrow> py_exn + bool"

definition extern :: "env \<Rightarrow> event \<Rightarrow> trace \<Rightarrow> (py_exn + unit) \<times> trace" where
  "extern env ev tr =
     (case fails env tr ev of None \<Rightarrow> (Inr (), tr @ [ev]) | Some e \<Rightarrow> (Inl e, tr @ [ev]))"

subsection \<open>The methods that do not touch the queue\<close>

definition log :: "torsel \<Rightarrow> message \<Rightarrow> trace \<Rightarrow> trace" where
  "log self m tr = (if verbose self then tr @ [Print m] else tr)"

text \<open>
  \<^verbatim>\<open>is_port_open\<close>: the socket is created, which may fail; \<^verbatim>\<open>connect_ex\<close> raises
  \<^verbatim>\<open>OverflowError\<close> for a port outside 0..65535 and otherwise answers with an error code.
\<close>

definition is_port_open :: "env \<Rightarrow> int \<Rightarrow> trace \<Rightarrow> (py_exn + bool) \<times> trace" where
  "is_port_open env port tr =
     (case extern env Socket tr of
        (Inl e, tr1) \<Rightarrow> (Inl e, tr1)
      | (Inr _, tr1) \<Rightarrow>
          if port < 0 \<or> 65535 < port then (Inl OverflowError, tr1)
          else (let r = port_open env tr1 port in (Inr r, tr1 @ [Connect port r])))"

text \<open>
  The body of the \<^verbatim>\<open>for port in range(...)\<close> loop of \<^verbatim>\<open>clean_up\<close>, then the loop, which
  an exception of a probe leaves. \<^verbatim>\<open>os.system\<close> reports a failed command by an exit
  status that the code drops, and \<^verbatim>\<open>os.path.exists\<close> answers false where it cannot
  tell; \<^verbatim>\<open>subprocess.call\<close> raises when there is no \<^verbatim>\<open>killall\<close> to run, and
  \<^verbatim>\<open>shutil.rmtree\<close> raises when it cannot delete.
\<close>

definition clean_up_port :: "env \<Rightarrow> int \<Rightarrow> trace \<Rightarrow> (py_exn + unit) \<times> trace" where
  "clean_up_port env port tr =
     (case is_port_open env port tr of
        (Inl e, tr1) \<Rightarrow> (Inl e, tr1)
      | (Inr o1, tr1) \<Rightarrow>
     (case is_port_open env (port + 101) (if o1 then tr1 @ [Fuser port] else tr1) of
        (Inl e, tr2) \<Rightarrow> (Inl e, tr2)
      | (Inr o2, tr2) \<Rightarrow> (Inr (), if o2 then tr2 @ [Fuser (port + 101)] else tr2)))"

fun clean_up_loop :: "env \<Rightarrow> int list \<Rightarrow> trace \<Rightarrow> (py_exn + unit) \<times> trace" where
  "clean_up_loop env [] tr = (Inr (), tr)"
| "clean_up_loop env (port # ports) tr =
     (case clean_up_port env port tr of
        (Inl e, tr1) \<Rightarrow> (Inl e, tr1)
      | (Inr _, tr1) \<Rightarrow> clean_up_loop env ports tr1)"

definition clean_up_ports :: "torsel \<Rightarrow> int list" where
  "clean_up_ports self =
     py_range (tor_base_port self) (tor_base_port self + total_instances self * 10) 10"

definition clean_up :: "torsel \<Rightarrow> env \<Rightarrow> trace \<Rightarrow> (py_exn + unit) \<times> trace" where
  "clean_up self env tr =
     (case extern env Killall (log self Msg_cleaning tr) of
        (Inl e, tr1) \<Rightarrow> (Inl e, tr1)
      | (Inr _, tr1) \<Rightarrow>
     (case clean_up_loop env (clean_up_ports self) (tr1 @ [Sleep 1]) of
        (Inl e, tr2) \<Rightarrow> (Inl e, tr2)
      | (Inr _, tr2) \<Rightarrow>
     (case (if path_exists env tr2
            then extern env Rmtree (tr2 @ [PathExists True])
            else (Inr (), tr2 @ [PathExists False])) of
        (Inl e, tr3) \<Rightarrow> (Inl e, tr3)
      | (Inr _, tr3) \<Rightarrow> (Inr (), log self Msg_cleanup_completed tr3 @ [Sleep 3]))))"

definition create_tor_instance :: "torsel \<Rightarrow> env \<Rightarrow> int \<Rightarrow> trace \<Rightarrow> (py_exn + unit) \<times> trace" where
  "create_tor_instance self env instance_num tr =
     (case extern env (Makedirs instance_num) (log self (Msg_creating instance_num) tr) of
        (Inl e, tr1) \<Rightarrow> (Inl e, tr1)
      | (Inr _, tr1) \<Rightarrow>
     (case extern env (WriteTorrc instance_num (socks_port self instance_num)
                        (control_port self instance_num)) tr1 of
        (Inl e, tr2) \<Rightarrow> (Inl e, tr2)
      | (Inr _, tr2) \<Rightarrow>
     (case extern env (Popen instance_num) tr2 of
        (Inl e, tr3) \<Rightarrow> (Inl e, tr3)
      | (Inr _, tr3) \<Rightarrow> (Inr (), log self (Msg_created instance_num) (tr3 @ [Sleep 5])))))"

definition configure_selenium_with_tor ::
  "torsel \<Rightarrow> env \<Rightarrow> int \<Rightarrow> trace \<Rightarrow> (py_exn + driver) \<times> trace" where
  "configure_selenium_with_tor self env instance_num tr =
     (case extern env (Chrome (socks_port self instance_num) (headless self)) tr of
        (Inl e, tr1) \<Rightarrow> (Inl e, tr1)
      | (Inr _, tr1) \<Rightarrow> (Inr (length tr), tr1))"

definition rotate_tor_ip :: "torsel \<Rightarrow> env \<Rightarrow> int \<Rightarrow> trace \<Rightarrow> (py_exn + unit) \<times> trace" where
  "rotate_tor_ip self env instance_num tr =
     (let port = control_port self instance_num
      in case is_port_open env port tr of
        (Inl e, tr1) \<Rightarrow> (Inl e, tr1)
      | (Inr is_open, tr1) \<Rightarrow>
         if is_open then
           (case extern env (FromPort port) tr1 of
              (Inl e, tr2) \<Rightarrow> (Inl e, tr2)
            | (Inr _, tr2) \<Rightarrow>
           (case extern env (Authenticate port) tr2 of
              (Inl e, tr3) \<Rightarrow> (Inl e, tr3 @ [Close port])
            | (Inr _, tr3) \<Rightarrow>
           (case extern env (Signal_NEWNYM port) tr3 of
              (Inl e, tr4) \<Rightarrow> (Inl e, tr4 @ [Close port])
            | (Inr _, tr4) \<Rightarrow>
                (Inr (), log self (Msg_rotated instance_num) (tr4 @ [Close port, Sleep 5])))))
         else (Inr (), log self (Msg_not_accessible port instance_num) tr1))"

text \<open>The call \<^verbatim>\<open>user_function(driver, action_num, instance_num, self.log)\<close>.\<close>

definition call_user ::
  "user_fn \<Rightarrow> driver \<Rightarrow> int \<Rightarrow> int \<Rightarrow> trace \<Rightarrow> (py_exn + unit) \<times> trace" where
  "call_user user_function d action_num instance_num tr =
     (case user_function tr action_num instance_num of
        None \<Rightarrow> (Inr (), tr @ [UserFunction d action_num instance_num])
      | Some e \<Rightarrow> (Inl e, tr @ [UserFunction d action_num instance_num]))"

definition execute_function ::
  "torsel \<Rightarrow> env \<Rightarrow> user_fn \<Rightarrow> int \<Rightarrow> int \<Rightarrow> trace \<Rightarrow> (py_exn + unit) \<times> trace" where
  "execute_function self env user_function action_num instance_num tr =
     (case configure_selenium_with_tor self env instance_num tr of
        (Inl e, tr1) \<Rightarrow> (Inl e, tr1)
      | (Inr d, tr1) \<Rightarrow>
     (case call_user user_function d action_num instance_num tr1 of
        (Inl e, tr2) \<Rightarrow> (Inl e, tr2)
      | (Inr _, tr2) \<Rightarrow> extern env (Quit d) tr2))"

text \<open>
  \<^verbatim>\<open>for attempt in range(5)\<close> of \<^verbatim>\<open>thread_manager\<close>, with the number of attempts left as
  its argument: a normal return of \<^verbatim>\<open>execute_function\<close> breaks, an exception that
  \<^verbatim>\<open>except Exception\<close> catches is logged and followed by \<^verbatim>\<open>rotate_tor_ip\<close>, and whatever
  the handler itself raises leaves the loop.
\<close>

fun retry_loop ::
  "torsel \<Rightarrow> env \<Rightarrow> user_fn \<Rightarrow> nat \<Rightarrow> int \<Rightarrow> int \<Rightarrow> trace \<Rightarrow> (py_exn + unit) \<times> trace" where
  "retry_loop self env user_function 0 action_num instance_num tr = (Inr (), tr)"
| "retry_loop self env user_function (Suc n) action_num instance_num tr =
     (case execute_function self env user_function action_num instance_num tr of
        (Inr _, tr1) \<Rightarrow> (Inr (), tr1)
      | (Inl e, tr1) \<Rightarrow>
          if is_Exception e then
            (case rotate_tor_ip self env instance_num
                    (log self (Msg_retrying action_num instance_num e) tr1) of
               (Inl e', tr2) \<Rightarrow> (Inl e', tr2)
             | (Inr _, tr2) \<Rightarrow> retry_loop self env user_function n action_num instance_num tr2)
          else (Inl e, tr1))"

text \<open>
  What \<^verbatim>\<open>thread_manager\<close> does with a dequeued action before \<^verbatim>\<open>queue.task_done()\<close>:
  the instance number, the creation of the instance when
  \<^verbatim>\<open>action_num < self.total_instances\<close>, and the five attempts.
\<close>

definition handle_action ::
  "torsel \<Rightarrow> env \<Rightarrow> user_fn \<Rightarrow> int \<Rightarrow> trace \<Rightarrow> (py_exn + unit) \<times> trace" where
  "handle_action self env user_function action_num tr =
     (case py_mod action_num (total_instances self) of
        Inl e \<Rightarrow> (Inl e, tr)
      | Inr instance_num \<Rightarrow>
          if action_num < total_instances self then
            (case create_tor_instance self env instance_num tr of
               (Inl e, tr1) \<Rightarrow> (Inl e, tr1)
             | (Inr _, tr1) \<Rightarrow>
                 retry_loop self env user_function 5 action_num instance_num (tr1 @ [Sleep 2]))
          else retry_loop self env user_function 5 action_num instance_num tr)"

subsection \<open>The shared queue\<close>

text \<open>
  \<^verbatim>\<open>queue.Queue\<close> of the standard library: the items in order and the count of
  unfinished tasks. \<^verbatim>\<open>get()\<close> waits while the queue is empty (\<open>None\<close>: the caller
  cannot go on), \<^verbatim>\<open>get_nowait()\<close> raises \<^verbatim>\<open>Empty\<close> there, and \<^verbatim>\<open>task_done()\<close> raises
  \<^verbatim>\<open>ValueError\<close> when called more often than items were put.
\<close>

record queue =
  items :: "int list"
  unfinished_tasks :: nat

definition Queue :: queue where
  "Queue = \<lparr> items = [], unfinished_tasks = 0 \<rparr>"

definition Queue_put :: "int \<Rightarrow> queue \<times> trace \<Rightarrow> queue \<times> trace" where
  "Queue_put x = (\<lambda>(q, tr).
     (q\<lparr> items := items q @ [x], unfinished_tasks := Suc (unfinished_tasks q) \<rparr>, tr @ [Put x]))"

definition Queue_empty :: "queue \<Rightarrow> bool" where
  "Queue_empty q = (items q = [])"

definition Queue_get :: "queue \<Rightarrow> trace \<Rightarrow> (int \<times> queue \<times> trace) option" where
  "Queue_get q tr =
     (case items q of [] \<Rightarrow> None | x # rest \<Rightarrow> Some (x, q\<lparr> items := rest \<rparr>, tr @ [Get x]))"

definition Queue_get_nowait :: "queue \<Rightarrow> trace \<Rightarrow> py_exn + (int \<times> queue \<times> trace)" where
  "Queue_get_nowait q tr =
     (case items q of [] \<Rightarrow> Inl QueueEmpty
      | x # rest \<Rightarrow> Inr (x, q\<lparr> items := rest \<rparr>, tr @ [GetNowait x]))"

definition Queue_task_done :: "queue \<Rightarrow> py_exn + queue" where
  "Queue_task_done q =
     (if unfinished_tasks q = 0 then Inl ValueError
      else Inr (q\<lparr> unfinished_tasks := unfinished_tasks q - 1 \<rparr>))"

subsection \<open>The worker\<close>

text \<open>
  One pass through the body of the outer \<^verbatim>\<open>while\<close> of \<^verbatim>\<open>thread_manager\<close>, after
  \<^verbatim>\<open>queue.get()\<close> has returned \<open>action_num\<close>: the action, \<^verbatim>\<open>queue.task_done()\<close> and the
  test \<^verbatim>\<open>check_stop_func and check_stop_func()\<close>, whose value is returned.
\<close>

definition loop_body ::
  "torsel \<Rightarrow> env \<Rightarrow> user_fn \<Rightarrow> stop_fn option \<Rightarrow> int \<Rightarrow> queue \<Rightarrow> trace
     \<Rightarrow> (py_exn + bool) \<times> queue \<times> trace" where
  "loop_body self env user_function check_stop_func action_num q tr =
     (case handle_action self env user_function action_num tr of
        (Inl e, tr1) \<Rightarrow> (Inl e, q, tr1)
      | (Inr _, tr1) \<Rightarrow>
     (case Queue_task_done q of
        Inl e \<Rightarrow> (Inl e, q, tr1)
      | Inr q1 \<Rightarrow>
     (case check_stop_func of
        None \<Rightarrow> (Inr False, q1, tr1)
      | Some f \<Rightarrow>
          (case f tr1 of
             Inl e \<Rightarrow> (Inl e, q1, tr1 @ [CheckStop (Inl e)])
           | Inr b \<Rightarrow> (Inr b, q1, tr1 @ [CheckStop (Inr b)])))))"

datatype outcome = Returned | Raised py_exn | Blocked

text \<open>
  The inner \<^verbatim>\<open>while not queue.empty()\<close> that discards what is left, run by a worker that
  no other thread interrupts.
\<close>

function drain :: "queue \<Rightarrow> trace \<Rightarrow> outcome \<times> queue \<times> trace" where
  "drain q tr =
     (if Queue_empty q then (Returned, q, tr)
      else case Queue_get_nowait q tr of
             Inl e \<Rightarrow> (Raised e, q, tr)
           | Inr (x, q1, tr1) \<Rightarrow>
               (case Queue_task_done q1 of
                  Inl e \<Rightarrow> (Raised e, q1, tr1)
                | Inr q2 \<Rightarrow> drain q2 tr1))"
  by pat_completeness auto
termination
  by (relation "measure (\<lambda>(q, tr). length (items q))")
     (auto simp: Queue_get_nowait_def Queue_task_done_def split: list.splits if_splits)

declare drain.simps [simp del]

lemma loop_body_items:
  "loop_body self env user_function check_stop_func action_num q tr = (r, q', tr')
     \<Longrightarrow> items q' = items q"
  by (auto simp: loop_body_def Queue_task_done_def
           split: prod.splits sum.splits option.splits if_splits)

text \<open>
  \<^verbatim>\<open>thread_manager\<close> as one worker runs it when no other thread touches the queue between
  its steps.
\<close>

function thread_manager ::
  "torsel \<Rightarrow> env \<Rightarrow> user_fn \<Rightarrow> stop_fn option \<Rightarrow> queue \<Rightarrow> trace \<Rightarrow> outcome \<times> queue \<times> trace" where
  "thread_manager self env user_function check_stop_func q tr =
     (if Queue_empty q then (Returned, q, tr)
      else case Queue_get q tr of
             None \<Rightarrow> (Blocked, q, tr)
           | Some (action_num, q0, tr0) \<Rightarrow>
               (case loop_body self env user_function check_stop_func action_num q0 tr0 of
                  (Inl e, q1, tr1) \<Rightarrow> (Raised e, q1, tr1)
                | (Inr True, q1, tr1) \<Rightarrow> drain q1 tr1
                | (Inr False, q1, tr1) \<Rightarrow>
                    thread_manager self env user_function check_stop_func q1 tr1))"
  by pat_completeness auto
termination
proof (relation "measure (\<lambda>(self, env, user_function, check_stop_func, q, tr). length (items q))",
       goal_cases)
  case 1
  show ?case by simp
next
  case (2 self env user_function check_stop_func q tr x2 action_num y q0 tr0 x xa y' x1 x2a)
  from 2 have "loop_body self env user_function check_stop_func action_num q0 tr0
                 = (Inr False, x1, x2a)"
    by simp
  then have "items x1 = items q0"
    by (rule loop_body_items)
  moreover from 2 have "length (items q0) < length (items q)"
    by (auto simp: Queue_get_def split: list.splits)
  ultimately show ?case by simp
qed

declare thread_manager.simps [simp del]

subsection \<open>The pool of workers\<close>

text \<open>
  \<^verbatim>\<open>run\<close> starts several threads on \<^verbatim>\<open>thread_manager\<close> and joins them. The threads share
  the queue, so a worker is followed from one access to the queue's items to the next:
  it is about to evaluate the outer \<^verbatim>\<open>while not queue.empty()\<close>, about to call
  \<^verbatim>\<open>queue.get()\<close>, about to evaluate the inner \<^verbatim>\<open>while not queue.empty()\<close>, about to
  call \<^verbatim>\<open>queue.get_nowait()\<close>, or it has left \<^verbatim>\<open>thread_manager\<close>, by returning or by an
  exception. Between two accesses a worker runs the code of \<open>loop_body\<close>, which touches
  nothing shared but the count of unfinished tasks; a pass is therefore recorded in one
  piece, right after its \<^verbatim>\<open>get()\<close>, and the passes of the workers follow one another
  in the trace in the order in which the actions were handed out.
\<close>

datatype pc = AtWhile | AtGet | AtDrainWhile | AtDrainGet | Finished | Crashed py_exn

fun terminated :: "pc \<Rightarrow> bool" where
  "terminated Finished = True"
| "terminated (Crashed _) = True"
| "terminated _ = False"

text \<open>
  One step of a worker; \<open>None\<close> when it cannot move: it is waiting in \<^verbatim>\<open>queue.get()\<close> on
  an empty queue, or it has left \<^verbatim>\<open>thread_manager\<close>.
\<close>

fun worker_step ::
  "torsel \<Rightarrow> env \<Rightarrow> user_fn \<Rightarrow> stop_fn option \<Rightarrow> pc \<Rightarrow> queue \<Rightarrow> trace
     \<Rightarrow> (pc \<times> queue \<times> trace) option" where
  "worker_step self env user_function check_stop_func AtWhile q tr =
     Some (if Queue_empty q then Finished else AtGet, q, tr)"
| "worker_step self env user_function check_stop_func AtGet q tr =
     (case Queue_get q tr of
        None \<Rightarrow> None
      | Some (action_num, q0, tr0) \<Rightarrow>
          (case loop_body self env user_function check_stop_func action_num q0 tr0 of
             (Inl e, q1, tr1) \<Rightarrow> Some (Crashed e, q1, tr1)
           | (Inr True, q1, tr1) \<Rightarrow> Some (AtDrainWhile, q1, tr1)
           | (Inr False, q1, tr1) \<Rightarrow> Some (AtWhile, q1, tr1)))"
| "worker_step self env user_function check_stop_func AtDrainWhile q tr =
     Some (if Queue_empty q then Finished else AtDrainGet, q, tr)"
| "worker_step self env user_function check_stop_func AtDrainGet q tr =
     (case Queue_get_nowait q tr of
        Inl e \<Rightarrow> Some (Crashed e, q, tr)
      | Inr (x, q1, tr1) \<Rightarrow>
          (case Queue_task_done q1 of
             Inl e \<Rightarrow> Some (Crashed e, q1, tr1)
           | Inr q2 \<Rightarrow> Some (AtDrainWhile, q2, tr1)))"
| "worker_step self env user_function check_stop_func Finished q tr = None"
| "worker_step self env user_function check_stop_func (Crashed e) q tr = None"

text \<open>
  The thread that called \<^verbatim>\<open>run\<close>: it is in the loop that starts the workers, or it is
  joining them in order (\<open>Joining k\<close>: the first \<open>k\<close> are joined), or \<^verbatim>\<open>run\<close> has returned.
\<close>

datatype main_pc = Starting | Joining nat | Done

record system =
  shared :: queue
  history :: trace
  workers :: "pc list"
  main :: main_pc

definition main_step :: "torsel \<Rightarrow> int \<Rightarrow> system \<Rightarrow> system option" where
  "main_step self num_actions s =
     (case main s of
        Starting \<Rightarrow>
          if int (length (workers s)) < min num_actions (max_threads self)
          then Some (s\<lparr> workers := workers s @ [AtWhile],
                        history := history s @ [Start (length (workers s))] \<rparr>)
          else Some (s\<lparr> main := Joining 0 \<rparr>)
      | Joining k \<Rightarrow>
          if k < length (workers s)
          then (if terminated (workers s ! k)
                then Some (s\<lparr> main := Joining (Suc k), history := history s @ [Join k] \<rparr>)
                else None)
          else Some (s\<lparr> main := Done \<rparr>)
      | Done \<Rightarrow> None)"

datatype tid = Main | Worker nat

definition step ::
  "torsel \<Rightarrow> env \<Rightarrow> int \<Rightarrow> user_fn \<Rightarrow> stop_fn option \<Rightarrow> tid \<Rightarrow> system \<Rightarrow> system option" where
  "step self env num_actions user_function check_stop_func t s =
     (case t of
        Main \<Rightarrow> main_step self num_actions s
      | Worker k \<Rightarrow>
          if k < length (workers s) then
            (case worker_step self env user_function check_stop_func
                    (workers s ! k) (shared s) (history s) of
               None \<Rightarrow> None
             | Some (p, q, tr) \<Rightarrow>
                 Some (s\<lparr> workers := (workers s)[k := p], shared := q, history := tr \<rparr>))
          else None)"

text \<open>
  \<^verbatim>\<open>run\<close> up to its first thread: \<^verbatim>\<open>clean_up\<close>, whose exception leaves \<^verbatim>\<open>run\<close>, then
  a new queue and \<^verbatim>\<open>for i in range(num_actions): queue.put(i)\<close>.
\<close>

definition run_start :: "torsel \<Rightarrow> env \<Rightarrow> int \<Rightarrow> py_exn + system" where
  "run_start self env num_actions =
     (case clean_up self env [] of
        (Inl e, tr) \<Rightarrow> Inl e
      | (Inr _, tr) \<Rightarrow>
          (let (q, tr1) = fold Queue_put (py_range 0 num_actions 1) (Queue, tr)
           in Inr \<lparr> shared = q, history = tr1, workers = [], main = Starting \<rparr>))"

text \<open>
  The threads under a schedule: the list of the threads that move, in order. \<open>None\<close>
  when the schedule asks a thread to move that cannot.
\<close>

fun exec ::
  "torsel \<Rightarrow> env \<Rightarrow> int \<Rightarrow> user_fn \<Rightarrow> stop_fn option \<Rightarrow> tid list \<Rightarrow> system \<Rightarrow> system option" where
  "exec self env num_actions user_function check_stop_func [] s = Some s"
| "exec self env num_actions user_function check_stop_func (t # ts) s =
     (case step self env num_actions user_function check_stop_func t s of
        None \<Rightarrow> None
      | Some s' \<Rightarrow> exec self env num_actions user_function check_stop_func ts s')"

text \<open>
  \<^verbatim>\<open>run\<close> under a schedule: \<open>Inl e\<close> when \<^verbatim>\<open>clean_up\<close> raises \<open>e\<close>, and otherwise the state
  that the threads reach.
\<close>

definition run ::
  "torsel \<Rightarrow> env \<Rightarrow> int \<Rightarrow> user_fn \<Rightarrow> stop_fn option \<Rightarrow> tid list \<Rightarrow> py_exn + system option" where
  "run self env num_actions user_function check_stop_func schedule =
     (case run_start self env num_actions of
        Inl e \<Rightarrow> Inl e
      | Inr s \<Rightarrow>
          Inr (exec self env num_actions user_function check_stop_func schedule s))"

text \<open>
  A worker moving alone: how far it gets in a given number of its own steps, and the
  place at which each outcome of \<open>thread_manager\<close> leaves it.
\<close>

fun final :: "outcome \<times> queue \<times> trace \<Rightarrow> pc \<times> queue \<times> trace" where
  "final (Returned, q, tr) = (Finished, q, tr)"
| "final (Raised e, q, tr) = (Crashed e, q, tr)"
| "final (Blocked, q, tr) = (AtGet, q, tr)"

fun solo ::
  "torsel \<Rightarrow> env \<Rightarrow> user_fn \<Rightarrow> stop_fn option \<Rightarrow> nat \<Rightarrow> pc \<times> queue \<times> trace
     \<Rightarrow> pc \<times> queue \<times> trace" where
  "solo self env user_function check_stop_func 0 c = c"
| "solo self env user_function check_stop_func (Suc n) (p, q, tr) =
     (case worker_step self env user_function check_stop_func p q tr of
        None \<Rightarrow> (p, q, tr)
      | Some c' \<Rightarrow> solo self env user_function check_stop_func n c')"

subsection \<open>Reading a trace\<close>

text \<open>
  A call of \<^verbatim>\<open>execute_function\<close> begins by building a session and nothing else builds
  one, so the attempts of a trace are its \<open>Chrome\<close> events. A call of \<^verbatim>\<open>rotate_tor_ip\<close>
  begins by probing the control port, for which it creates a socket, and the retry loop
  probes no port otherwise, so the rotations of a trace of the retry loop are its
  \<open>Socket\<close> events.
\<close>

fun is_attempt :: "event \<Rightarrow> bool" where
  "is_attempt (Chrome _ _) = True"
| "is_attempt _ = False"

fun is_rotation :: "event \<Rightarrow> bool" where
  "is_rotation Socket = True"
| "is_rotation _ = False"

definition attempts :: "trace \<Rightarrow> nat" where
  "attempts tr = length (filter is_attempt tr)"

definition rotations :: "trace \<Rightarrow> nat" where
  "rotations tr = length (filter is_rotation tr)"

text \<open>The attempts and the rotations of a trace, as they follow one another.\<close>

definition marks :: "trace \<Rightarrow> trace" where
  "marks tr = filter (\<lambda>e. is_attempt e \<or> is_rotation e) tr"

text \<open>
  The instances created (\<^verbatim>\<open>create_tor_instance\<close> begins with \<^verbatim>\<open>os.makedirs\<close>), the
  actions handed out by \<^verbatim>\<open>queue.get()\<close>, the items taken off the queue by either call,
  the workers started, the items put, and the pairs of action and instance the user
  function was called with, each in the order of the trace.
\<close>

fun created :: "event \<Rightarrow> int list" where
  "created (Makedirs i) = [i]"
| "created _ = []"

fun got :: "event \<Rightarrow> int list" where
  "got (Get a) = [a]"
| "got _ = []"

fun taken :: "event \<Rightarrow> int list" where
  "taken (Get a) = [a]"
| "taken (GetNowait a) = [a]"
| "taken _ = []"

fun started :: "event \<Rightarrow> nat list" where
  "started (Start k) = [k]"
| "started _ = []"

fun put_of :: "event \<Rightarrow> int list" where
  "put_of (Put a) = [a]"
| "put_of _ = []"

fun used :: "event \<Rightarrow> (int \<times> int) list" where
  "used (UserFunction d a i) = [(a, i)]"
| "used _ = []"

definition creates :: "trace \<Rightarrow> int list" where
  "creates tr = concat (map created tr)"

definition gets :: "trace \<Rightarrow> int list" where
  "gets tr = concat (map got tr)"

definition removed :: "trace \<Rightarrow> int list" where
  "removed tr = concat (map taken tr)"

definition starts :: "trace \<Rightarrow> nat list" where
  "starts tr = concat (map started tr)"

definition puts :: "trace \<Rightarrow> int list" where
  "puts tr = concat (map put_of tr)"

definition uses :: "trace \<Rightarrow> (int \<times> int) list" where
  "uses tr = concat (map used tr)"

text \<open>The ports probed, in order.\<close>

fun connected :: "event \<Rightarrow> int list" where
  "connected (Connect p b) = [p]"
| "connected _ = []"

definition probes :: "trace \<Rightarrow> int list" where
  "probes tr = concat (map connected tr)"

text \<open>
  The events of the methods that neither touch the queue, nor start or join a thread,
  nor create an instance, nor call the user function.
\<close>

fun own :: "event \<Rightarrow> bool" where
  "own (UserFunction _ _ _) = False"
| "own (Put _) = False"
| "own (Get _) = False"
| "own (GetNowait _) = False"
| "own (Start _) = False"
| "own (Join _) = False"
| "own (Makedirs _) = False"
| "own _ = True"

text \<open>
  A stretch of trace that belongs to the handling of action \<open>a\<close> on instance \<open>i\<close>: it
  holds no operation on the queue or on a thread, and calls the user function with
  \<open>a\<close> and \<open>i\<close> only.
\<close>

definition local_to :: "int \<Rightarrow> int \<Rightarrow> trace \<Rightarrow> bool" where
  "local_to a i evs \<longleftrightarrow>
     gets evs = [] \<and> removed evs = [] \<and> starts evs = [] \<and> puts evs = []
     \<and> set (uses evs) \<subseteq> {(a, i)}"

subsection \<open>What holds in every state of a run\<close>

text \<open>
  About the trace and the queue: the trace begins with that of \<^verbatim>\<open>clean_up\<close> and the
  seeding of the queue, and for the rest of it: nothing more is put; what was taken off
  the queue followed by what is still in it is the seed, in order; the count of
  unfinished tasks covers the items; the instances created are the actions below
  \<^verbatim>\<open>total_instances\<close> among those handed out by \<^verbatim>\<open>get()\<close>; the user function was called
  only with an action handed out by \<^verbatim>\<open>get()\<close> and the instance
  \<^verbatim>\<open>action_num % total_instances\<close>; and the workers were started one by one.
\<close>

definition trace_inv :: "torsel \<Rightarrow> env \<Rightarrow> int \<Rightarrow> system \<Rightarrow> trace \<Rightarrow> bool" where
  "trace_inv self env num_actions s rest \<longleftrightarrow>
     history s = snd (clean_up self env []) @ map Put (py_range 0 num_actions 1) @ rest
     \<and> length (items (shared s)) \<le> unfinished_tasks (shared s)
     \<and> puts rest = []
     \<and> removed rest @ items (shared s) = py_range 0 num_actions 1
     \<and> creates rest = filter (\<lambda>a. a < total_instances self) (gets rest)
     \<and> (\<forall>(a, i) \<in> set (uses rest). a \<in> set (gets rest) \<and> i = a mod total_instances self)
     \<and> starts rest = [0..<length (workers s)]"

text \<open>
  About the threads: no more workers than \<^verbatim>\<open>min(num_actions, self.max_threads)\<close>, all of
  them once the starting loop is left, those already joined have left
  \<^verbatim>\<open>thread_manager\<close>, and so have all when \<^verbatim>\<open>run\<close> has returned.
\<close>

definition pool_inv :: "torsel \<Rightarrow> int \<Rightarrow> system \<Rightarrow> bool" where
  "pool_inv self num_actions s \<longleftrightarrow>
     length (workers s) \<le> nat (min num_actions (max_threads self))
     \<and> (main s \<noteq> Starting \<longrightarrow> length (workers s) = nat (min num_actions (max_threads self)))
     \<and> (\<forall>k. main s = Joining k \<longrightarrow>
            k \<le> length (workers s) \<and> (\<forall>j<k. terminated (workers s ! j)))
     \<and> (main s = Done \<longrightarrow> (\<forall>p \<in> set (workers s). terminated p))"

definition run_inv :: "torsel \<Rightarrow> env \<Rightarrow> int \<Rightarrow> system \<Rightarrow> bool" where
  "run_inv self env num_actions s \<longleftrightarrow>
     (\<exists>rest. trace_inv self env num_actions s rest) \<and> pool_inv self num_actions s"

subsection \<open>Inputs to run the model on\<close>

definition always_raises :: user_fn where
  "always_raises = (\<lambda>tr action_num instance_num. Some (Exception ''boom''))"

definition always_returns :: user_fn where
  "always_returns = (\<lambda>tr action_num instance_num. None)"


text \<open>Nothing listens on any port and no call fails; every port is open and no call fails;
  every port is open and the control channel refuses to authenticate.\<close>

definition quiet :: env where
  "quiet = \<lparr> port_open = (\<lambda>tr port. False), path_exists = (\<lambda>tr. False),
             fails = (\<lambda>tr ev. None) \<rparr>"

definition all_open :: env where
  "all_open = \<lparr> port_open = (\<lambda>tr port. True), path_exists = (\<lambda>tr. True),
                fails = (\<lambda>tr ev. None) \<rparr>"

definition auth_fails :: env where
  "auth_fails = \<lparr> port_open = (\<lambda>tr port. True), path_exists = (\<lambda>tr. True),
       fails = (\<lambda>tr ev. case ev of Authenticate p \<Rightarrow> Some (Exception ''auth'') | _ \<Rightarrow> None) \<rparr>"

text \<open>\<^verbatim>\<open>Torsel(total_instances=1, max_threads=2)\<close> and
  \<^verbatim>\<open>Torsel(total_instances=2, max_threads=2)\<close>.\<close>

definition small_pool :: torsel where
  "small_pool = Torsel\<lparr> total_instances := 1, max_threads := 2 \<rparr>"


section \<open>Properties\<close>

subsection \<open>Ranges\<close>

lemma py_range_step:
  "0 < stp \<Longrightarrow> py_range b (b + int n * stp) stp = map (\<lambda>k. b + int k * stp) [0..<n]"
proof (induction n arbitrary: b)
  case 0
  then show ?case by (simp add: py_range.simps)
next
  case (Suc n)
  have "py_range b (b + int (Suc n) * stp) stp
          = b # py_range (b + stp) ((b + stp) + int n * stp) stp"
  proof -
    have "0 \<le> int n * stp" using Suc.prems by simp
    with Suc.prems have "0 < stp + int n * stp" by (rule add_pos_nonneg)
    then have lt: "b < b + int (Suc n) * stp" by (simp add: algebra_simps)
    have eq: "b + stp + int n * stp = b + int (Suc n) * stp" by (simp add: algebra_simps)
    show ?thesis
      using Suc.prems lt by (subst py_range.simps) (simp only: eq if_True simp_thms)
  qed
  also have "\<dots> = b # map (\<lambda>k. (b + stp) + int k * stp) [0..<n]"
    using Suc by simp
  also have "\<dots> = map (\<lambda>k. b + int k * stp) [0..<Suc n]"
    by (simp add: upt_rec [of 0] map_Suc_upt [symmetric] algebra_simps del: upt_Suc)
  finally show ?case .
qed

lemma py_range_empty: "stop \<le> start \<Longrightarrow> py_range start stop stp = []"
  by (simp add: py_range.simps)

lemma py_range_lower: "x \<in> set (py_range start stop stp) \<Longrightarrow> start \<le> x"
proof (induction start stop stp rule: py_range.induct)
  case (1 start stop stp)
  then show ?case
    by (subst (asm) (2) py_range.simps) (auto split: if_splits)
qed

lemma py_range_count: "py_range 0 n 1 = map int [0..<nat n]"
proof (cases "0 \<le> n")
  case True
  then show ?thesis
    using py_range_step [of 1 0 "nat n"] by simp
next
  case False
  then show ?thesis by (simp add: py_range_empty)
qed

lemma clean_up_ports_eq:
  "clean_up_ports self = map (\<lambda>k. socks_port self (int k)) [0..<nat (total_instances self)]"
proof (cases "0 \<le> total_instances self")
  case True
  then show ?thesis
    using py_range_step [of 10 "tor_base_port self" "nat (total_instances self)"]
    by (simp add: clean_up_ports_def socks_port_def)
next
  case False
  then show ?thesis
    by (simp add: clean_up_ports_def py_range_empty)
qed

subsection \<open>Ports of a pool\<close>

lemma socks_port_inj: "socks_port self i = socks_port self j \<longleftrightarrow> i = j"
  by (simp add: socks_port_def)

lemma control_port_inj: "control_port self i = control_port self j \<longleftrightarrow> i = j"
  by (simp add: control_port_def)

lemma socks_control_collide:
  "(\<exists>i j. 0 \<le> i \<and> i < total_instances self \<and> 0 \<le> j \<and> j < total_instances self
       \<and> socks_port self i = control_port self j)
   \<longleftrightarrow> (10 dvd (tor_control_base_port self - tor_base_port self)
        \<and> \<bar>tor_control_base_port self - tor_base_port self\<bar> < 10 * total_instances self)"
  (is "?L \<longleftrightarrow> ?R")
proof
  assume ?L
  then obtain i j where ij: "0 \<le> i" "i < total_instances self" "0 \<le> j" "j < total_instances self"
    "socks_port self i = control_port self j" by blast
  then have "tor_control_base_port self - tor_base_port self = 10 * (i - j)"
    by (simp add: socks_port_def control_port_def)
  with ij show ?R by auto
next
  assume R: ?R
  then obtain k where k: "tor_control_base_port self - tor_base_port self = 10 * k"
    by (auto simp: dvd_def)
  with R have kb: "\<bar>k\<bar> < total_instances self" by auto
  show ?L
  proof (cases "0 \<le> k")
    case True
    with k kb have "0 \<le> k \<and> k < total_instances self \<and> (0::int) \<le> 0 \<and> 0 < total_instances self
      \<and> socks_port self k = control_port self 0"
      by (auto simp: socks_port_def control_port_def)
    then show ?thesis by blast
  next
    case False
    with k kb have "(0::int) \<le> 0 \<and> 0 < total_instances self \<and> 0 \<le> - k \<and> - k < total_instances self
      \<and> socks_port self 0 = control_port self (- k)"
      by (auto simp: socks_port_def control_port_def)
    then show ?thesis by blast
  qed
qed

text \<open>
  C8, as the code has it. In every pool two distinct instances have distinct SOCKS ports
  and distinct control ports. A SOCKS port of one instance equals a control port of an
  instance of the same pool exactly when the two base ports differ by a multiple of the
  stride 10 that is smaller than ten times the number of instances; nothing in the code
  excludes such a configuration.
\<close>

theorem port_uniqueness:
  "(i \<noteq> j \<longrightarrow> socks_port self i \<noteq> socks_port self j
             \<and> control_port self i \<noteq> control_port self j)
   \<and> ((\<exists>i j. 0 \<le> i \<and> i < total_instances self \<and> 0 \<le> j \<and> j < total_instances self
            \<and> socks_port self i = control_port self j)
        \<longleftrightarrow> (10 dvd (tor_control_base_port self - tor_base_port self)
             \<and> \<bar>tor_control_base_port self - tor_base_port self\<bar> < 10 * total_instances self))"
  using socks_control_collide [of self] by (simp add: socks_port_inj control_port_inj)

text \<open>The default pool: ten instances, no two ports alike.\<close>

theorem port_uniqueness_witness:
  "(0::int) \<noteq> 1 \<and> socks_port Torsel 0 \<noteq> socks_port Torsel 1
   \<and> control_port Torsel 0 \<noteq> control_port Torsel 1
   \<and> \<not> (\<exists>i j. 0 \<le> i \<and> i < total_instances Torsel \<and> 0 \<le> j \<and> j < total_instances Torsel
            \<and> socks_port Torsel i = control_port Torsel j)"
  using port_uniqueness [of 0 1 Torsel] by (simp add: Torsel_def)

text \<open>
  C8 as stated fails: with \<^verbatim>\<open>Torsel(total_instances=2, tor_control_base_port=9060)\<close> the
  SOCKS port of instance 1 is the control port of instance 0.
\<close>

theorem socks_control_collision:
  "(0::int) \<le> 1
   \<and> 1 < total_instances (Torsel\<lparr> total_instances := 2, tor_control_base_port := 9060 \<rparr>)
   \<and> (0::int) \<le> 0
   \<and> 0 < total_instances (Torsel\<lparr> total_instances := 2, tor_control_base_port := 9060 \<rparr>)
   \<and> socks_port (Torsel\<lparr> total_instances := 2, tor_control_base_port := 9060 \<rparr>) 1
       = control_port (Torsel\<lparr> total_instances := 2, tor_control_base_port := 9060 \<rparr>) 0"
  by (simp add: Torsel_def socks_port_def control_port_def)

subsection \<open>The retry loop\<close>

lemma attempts_append [simp]: "attempts (xs @ ys) = attempts xs + attempts ys"
  by (simp add: attempts_def)

lemma rotations_append [simp]: "rotations (xs @ ys) = rotations xs + rotations ys"
  by (simp add: rotations_def)

lemma marks_append [simp]: "marks (xs @ ys) = marks xs @ marks ys"
  by (simp add: marks_def)

lemma marks_Nil [simp]: "marks [] = []"
  by (simp add: marks_def)




lemma marks_log [simp]: "marks (log self m tr) = marks tr"
  by (simp add: log_def marks_def)




text \<open>
  A control port outside 0..65535 makes the probe of \<^verbatim>\<open>rotate_tor_ip\<close> raise, and the
  exception, raised inside the handler, leaves the retry loop after the first attempt.
\<close>

lemma rotate_tor_ip_port_out_of_range:
  assumes "control_port self i < 0 \<or> 65535 < control_port self i"
    and "fails env tr Socket = None"
  shows "rotate_tor_ip self env i tr = (Inl OverflowError, tr @ [Socket])"
  using assms by (auto simp: rotate_tor_ip_def is_port_open_def extern_def Let_def)

lemma retry_loop_port_out_of_range:
  "retry_loop (Torsel\<lparr> tor_control_base_port := 70000 \<rparr>) all_open always_raises 5 0 0 []
     = (Inl OverflowError,
        [Chrome 9050 True, UserFunction 0 0 0, Print (Msg_retrying 0 0 (Exception ''boom'')),
         Socket])"
  by code_simp




subsection \<open>Sessions\<close>

lemma execute_function_raise:
  assumes "fails env tr (Chrome (socks_port self i) (headless self)) = None"
    and "user_function (tr @ [Chrome (socks_port self i) (headless self)]) a i = Some e"
  shows "execute_function self env user_function a i tr
           = (Inl e, tr @ [Chrome (socks_port self i) (headless self), UserFunction (length tr) a i])"
  using assms
  by (simp add: execute_function_def configure_selenium_with_tor_def extern_def call_user_def)

text \<open>
  C2 at a user function that raises: \<^verbatim>\<open>execute_function\<close> builds the session, calls the
  user function and leaves with its exception; \<^verbatim>\<open>driver.quit()\<close> is not called, and the
  session built at position 0 of the trace is never released. When the user function
  returns, the same call ends with \<open>Quit 0\<close>.
\<close>

theorem execute_function_leaks_session:
  "execute_function Torsel all_open always_raises 0 0 []
     = (Inl (Exception ''boom''), [Chrome 9050 True, UserFunction 0 0 0])
   \<and> execute_function Torsel all_open always_returns 0 0 []
     = (Inr (), [Chrome 9050 True, UserFunction 0 0 0, Quit 0])"
  by (simp add: execute_function_def configure_selenium_with_tor_def extern_def call_user_def
      Torsel_def all_open_def always_raises_def always_returns_def socks_port_def)

subsection \<open>Cleaning up\<close>

lemma probes_simps [simp]:
  "probes [] = []" "probes (e # tr) = connected e @ probes tr"
  "probes (xs @ ys) = probes xs @ probes ys"
  by (simp_all add: probes_def)

lemma probes_log [simp]: "probes (log self m tr) = probes tr"
  by (simp add: log_def)

lemma probes_is_port_open:
  "is_port_open env port tr = (Inr b, tr') \<Longrightarrow> probes tr' = probes tr @ [port]"
  by (auto simp: is_port_open_def extern_def Let_def split: option.splits if_splits)

lemma probes_clean_up_port:
  assumes "clean_up_port env port tr = (Inr u, tr')"
  shows "probes tr' = probes tr @ [port, port + 101]"
proof -
  from assms obtain o1 tr1 o2 tr2 where
    1: "is_port_open env port tr = (Inr o1, tr1)"
    and 2: "is_port_open env (port + 101) (if o1 then tr1 @ [Fuser port] else tr1) = (Inr o2, tr2)"
    and 3: "tr' = (if o2 then tr2 @ [Fuser (port + 101)] else tr2)"
    by (auto simp: clean_up_port_def split: prod.splits sum.splits)
  from probes_is_port_open [OF 1] probes_is_port_open [OF 2] 3 show ?thesis
    by (simp split: if_splits)
qed

lemma probes_clean_up_loop:
  "clean_up_loop env ports tr = (Inr u, tr') \<Longrightarrow>
     probes tr' = probes tr @ concat (map (\<lambda>p. [p, p + 101]) ports)"
proof (induction ports arbitrary: tr)
  case Nil
  then show ?case by simp
next
  case (Cons port ports)
  from Cons.prems obtain u1 tr1 where 1: "clean_up_port env port tr = (Inr u1, tr1)"
    and 2: "clean_up_loop env ports tr1 = (Inr u, tr')"
    by (auto split: prod.splits sum.splits)
  from probes_clean_up_port [OF 1] Cons.IH [OF 2] show ?case by simp
qed

lemma probes_clean_up:
  assumes "clean_up self env tr = (Inr u, tr')"
  shows "probes tr'
     = probes tr @ concat (map (\<lambda>k. [socks_port self (int k), socks_port self (int k) + 101])
                             [0..<nat (total_instances self)])"
proof -
  from assms obtain u1 tr1 u2 tr2 where
    1: "extern env Killall (log self Msg_cleaning tr) = (Inr u1, tr1)"
    and 2: "clean_up_loop env (clean_up_ports self) (tr1 @ [Sleep 1]) = (Inr u2, tr2)"
    and 3: "probes tr' = probes tr2"
    by (auto simp: clean_up_def extern_def log_def split: prod.splits sum.splits if_splits
          option.splits)
  from 1 have "probes tr1 = probes tr"
    by (auto simp: extern_def split: option.splits)
  with probes_clean_up_loop [OF 2] 3 show ?thesis
    by (simp add: clean_up_ports_eq comp_def)
qed

lemma clean_up_control_port:
  "socks_port self i + 101 = control_port self i
     \<longleftrightarrow> tor_control_base_port self = tor_base_port self + 101"
  by (auto simp: socks_port_def control_port_def)

text \<open>
  C4 at \<^verbatim>\<open>Torsel(total_instances=1, tor_control_base_port=9200)\<close> with every port open:
  \<^verbatim>\<open>clean_up\<close> probes and frees 9050 and 9050 + 101 = 9151, while the control port that
  \<^verbatim>\<open>create_tor_instance\<close> gives instance 0 is 9200, which is neither probed nor freed.
\<close>

theorem clean_up_ignores_control_base:
  "clean_up (Torsel\<lparr> total_instances := 1, tor_control_base_port := 9200 \<rparr>) all_open []
     = (Inr (),
        [Print Msg_cleaning, Killall, Sleep 1, Socket, Connect 9050 True, Fuser 9050,
         Socket, Connect 9151 True, Fuser 9151, PathExists True, Rmtree,
         Print Msg_cleanup_completed, Sleep 3])
   \<and> control_port (Torsel\<lparr> total_instances := 1, tor_control_base_port := 9200 \<rparr>) 0 = 9200"
  by code_simp

subsection \<open>Failures of the control channel\<close>

text \<open>
  C3 at a queue holding the actions 0 and 1, a user function that always raises and a
  control port that is open but refuses to authenticate: the exception raised inside
  \<^verbatim>\<open>rotate_tor_ip\<close>, called from the handler of the first failed attempt, leaves
  \<^verbatim>\<open>thread_manager\<close>. The worker ends there: \<^verbatim>\<open>task_done\<close> is not called and action 1
  stays in the queue.
\<close>

theorem rotation_failure_escapes_worker:
  "thread_manager Torsel auth_fails always_raises None \<lparr>items = [0, 1], unfinished_tasks = 2\<rparr> []
     = (Raised (Exception ''auth''), \<lparr>items = [1], unfinished_tasks = 2\<rparr>,
        [Get 0, Print (Msg_creating 0), Makedirs 0, WriteTorrc 0 9050 9151,
         Popen 0, Sleep 5, Print (Msg_created 0), Sleep 2, Chrome 9050 True,
         UserFunction 8 0 0, Print (Msg_retrying 0 0 (Exception ''boom'')),
         Socket, Connect 9151 True, FromPort 9151, Authenticate 9151, Close 9151])"
  by code_simp

subsection \<open>The stop check\<close>

lemma drain_all:
  "length (items q) \<le> unfinished_tasks q \<Longrightarrow>
     drain q tr = (Returned,
                   q\<lparr> items := [], unfinished_tasks := unfinished_tasks q - length (items q) \<rparr>,
                   tr @ map GetNowait (items q))"
proof (induction "items q" arbitrary: q tr)
  case Nil
  then show ?case
    by (subst drain.simps) (simp add: Queue_empty_def)
next
  case (Cons x xs)
  let ?q2 = "q\<lparr> items := xs, unfinished_tasks := unfinished_tasks q - 1 \<rparr>"
  have "length (items q) = Suc (length xs)" using Cons.hyps(2) [symmetric] by simp
  with Cons.prems have u: "unfinished_tasks q \<noteq> 0" by simp
  have "drain q tr = drain ?q2 (tr @ [GetNowait x])"
    using Cons.hyps(2) [symmetric] u
    by (subst drain.simps) (simp add: Queue_empty_def Queue_get_nowait_def Queue_task_done_def)
  also have "\<dots> = (Returned,
       ?q2\<lparr> items := [], unfinished_tasks := unfinished_tasks ?q2 - length (items ?q2) \<rparr>,
       (tr @ [GetNowait x]) @ map GetNowait (items ?q2))"
    using Cons.hyps(2) [symmetric] Cons.prems
    by (intro Cons.hyps(1)) auto
  finally show ?case
    using Cons.hyps(2) [symmetric] by simp
qed

text \<open>
  The body of \<^verbatim>\<open>thread_manager\<close> run from its first line to its last with nothing in
  between: the worker takes \<open>a\<close> off a queue whose count of unfinished tasks covers its
  items, completes the action, the stop check answers true, and the rest of the queue is
  discarded.
\<close>

lemma thread_manager_stop_drains:
  assumes "items q = a # rest" and "length (items q) \<le> unfinished_tasks q"
    and "handle_action self env user_function a (tr @ [Get a]) = (Inr (), tr1)"
    and "check_stop_func tr1 = Inr True"
  shows "thread_manager self env user_function (Some check_stop_func) q tr
           = (Returned,
              q\<lparr> items := [], unfinished_tasks := unfinished_tasks q - length (items q) \<rparr>,
              tr1 @ CheckStop (Inr True) # map GetNowait rest)"
proof -
  let ?q0 = "q\<lparr> items := rest \<rparr>"
  let ?q1 = "q\<lparr> items := rest, unfinished_tasks := unfinished_tasks q - 1 \<rparr>"
  from assms(1,2) have u: "unfinished_tasks q \<noteq> 0" by auto
  have g: "Queue_get q tr = Some (a, ?q0, tr @ [Get a])"
    using assms(1) by (simp add: Queue_get_def)
  have b: "loop_body self env user_function (Some check_stop_func) a ?q0 (tr @ [Get a])
             = (Inr True, ?q1, tr1 @ [CheckStop (Inr True)])"
    using assms(3,4) u by (simp add: loop_body_def Queue_task_done_def)
  have d: "drain ?q1 (tr1 @ [CheckStop (Inr True)])
             = (Returned,
                ?q1\<lparr> items := [], unfinished_tasks := unfinished_tasks ?q1 - length (items ?q1) \<rparr>,
                (tr1 @ [CheckStop (Inr True)]) @ map GetNowait (items ?q1))"
    using assms(1,2) by (intro drain_all) auto
  have "thread_manager self env user_function (Some check_stop_func) q tr
          = drain ?q1 (tr1 @ [CheckStop (Inr True)])"
    using assms(1) g b by (subst thread_manager.simps) (simp add: Queue_empty_def)
  with d assms(1) show ?thesis by simp
qed

subsection \<open>One worker alone, and a worker that drains\<close>

text \<open>
  A worker that runs alone is never left waiting in \<^verbatim>\<open>queue.get()\<close>; and the steps of
  a worker, taken with no other thread in between, end where \<open>thread_manager\<close> says.
\<close>

lemma drain_not_Blocked: "fst (drain q tr) \<noteq> Blocked"
proof (induction q tr rule: drain.induct)
  case (1 q tr)
  show ?case
  proof (cases "Queue_empty q")
    case True
    then show ?thesis by (subst drain.simps) simp
  next
    case False
    with "1.IH" show ?thesis
      by (subst drain.simps) (auto split: sum.splits prod.splits)
  qed
qed

lemma thread_manager_not_Blocked:
  "fst (thread_manager self env user_function check_stop_func q tr) \<noteq> Blocked"
proof (induction self env user_function check_stop_func q tr rule: thread_manager.induct)
  case (1 self env user_function check_stop_func q tr)
  show ?case
  proof (cases "Queue_empty q")
    case True
    then show ?thesis by (subst thread_manager.simps) simp
  next
    case False
    then have "Queue_get q tr \<noteq> None"
      by (simp add: Queue_empty_def Queue_get_def split: list.splits)
    then obtain g where g: "Queue_get q tr = Some g"
      by blast
    with False "1.IH" show ?thesis
      by (subst thread_manager.simps)
         (auto simp: drain_not_Blocked split: sum.splits prod.splits bool.splits)
  qed
qed

lemma solo_stuck:
  "worker_step self env user_function check_stop_func p q tr = None \<Longrightarrow>
     solo self env user_function check_stop_func n (p, q, tr) = (p, q, tr)"
  by (cases n) simp_all

lemma solo_add:
  "solo self env user_function check_stop_func (m + n) c
     = solo self env user_function check_stop_func n
         (solo self env user_function check_stop_func m c)"
proof (induction m arbitrary: c)
  case 0
  show ?case by simp
next
  case (Suc m)
  obtain p q tr where c: "c = (p, q, tr)" by (cases c)
  show ?case
  proof (cases "worker_step self env user_function check_stop_func p q tr")
    case None
    then show ?thesis by (simp add: c solo_stuck)
  next
    case (Some c')
    with Suc show ?thesis by (simp add: c)
  qed
qed

lemma solo_drain:
  "\<exists>n. solo self env user_function check_stop_func n (AtDrainWhile, q, tr) = final (drain q tr)"
proof (induction q tr rule: drain.induct)
  case (1 q tr)
  show ?case
  proof (cases "Queue_empty q")
    case True
    then have "solo self env user_function check_stop_func 1 (AtDrainWhile, q, tr)
                 = final (drain q tr)"
      by (subst drain.simps) simp
    then show ?thesis ..
  next
    case ne: False
    show ?thesis
    proof (cases "Queue_get_nowait q tr")
      case (Inl e)
      with ne have "solo self env user_function check_stop_func 2 (AtDrainWhile, q, tr)
                 = final (drain q tr)"
        by (subst drain.simps) (simp add: eval_nat_numeral)
      then show ?thesis ..
    next
      case (Inr r)
      obtain x q1 tr1 where r: "r = (x, q1, tr1)" by (cases r)
      show ?thesis
      proof (cases "Queue_task_done q1")
        case (Inl e)
        with ne Inr r have "solo self env user_function check_stop_func 2 (AtDrainWhile, q, tr)
                 = final (drain q tr)"
          by (subst drain.simps) (simp add: eval_nat_numeral)
        then show ?thesis ..
      next
        case td: (Inr q2)
        obtain n where n: "solo self env user_function check_stop_func n (AtDrainWhile, q2, tr1)
                 = final (drain q2 tr1)"
          using "1.IH" [OF ne Inr r [symmetric] refl td] by blast
        have "solo self env user_function check_stop_func 2 (AtDrainWhile, q, tr)
                = (AtDrainWhile, q2, tr1)"
          using ne Inr r td by (simp add: eval_nat_numeral)
        then have "solo self env user_function check_stop_func (2 + n) (AtDrainWhile, q, tr)
                = final (drain q2 tr1)"
          using n by (simp only: solo_add)
        moreover have "drain q tr = drain q2 tr1"
          using ne Inr r td by (subst drain.simps) simp
        ultimately show ?thesis by metis
      qed
    qed
  qed
qed

lemma solo_thread_manager:
  "\<exists>n. solo self env user_function check_stop_func n (AtWhile, q, tr)
          = final (thread_manager self env user_function check_stop_func q tr)"
proof (induction self env user_function check_stop_func q tr rule: thread_manager.induct)
  case (1 self env user_function check_stop_func q tr)
  let ?solo = "solo self env user_function check_stop_func"
  let ?tm = "thread_manager self env user_function check_stop_func"
  show ?case
  proof (cases "Queue_empty q")
    case True
    then have "?solo 1 (AtWhile, q, tr) = final (?tm q tr)"
      by (subst thread_manager.simps) simp
    then show ?thesis ..
  next
    case ne: False
    show ?thesis
    proof (cases "Queue_get q tr")
      case None
      with ne have "?solo 2 (AtWhile, q, tr) = final (?tm q tr)"
        by (subst thread_manager.simps) (simp add: eval_nat_numeral)
      then show ?thesis ..
    next
      case (Some g)
      obtain a q0 tr0 where g: "g = (a, q0, tr0)" by (cases g)
      obtain r q1 tr1 where b:
        "loop_body self env user_function check_stop_func a q0 tr0 = (r, q1, tr1)"
        by (cases "loop_body self env user_function check_stop_func a q0 tr0")
      show ?thesis
      proof (cases r)
        case (Inl e)
        with ne Some g b have "?solo 2 (AtWhile, q, tr) = final (?tm q tr)"
          by (subst thread_manager.simps) (simp add: eval_nat_numeral)
        then show ?thesis ..
      next
        case (Inr stop)
        show ?thesis
        proof (cases stop)
          case True
          obtain n where n: "?solo n (AtDrainWhile, q1, tr1) = final (drain q1 tr1)"
            using solo_drain by blast
          have "?solo 2 (AtWhile, q, tr) = (AtDrainWhile, q1, tr1)"
            using ne Some g b Inr True by (simp add: eval_nat_numeral)
          then have "?solo (2 + n) (AtWhile, q, tr) = final (drain q1 tr1)"
            using n by (simp only: solo_add)
          moreover have "?tm q tr = drain q1 tr1"
            using ne Some g b Inr True by (subst thread_manager.simps) simp
          ultimately show ?thesis by metis
        next
          case False
          from False have sf: "stop = False" by simp
          obtain n where n: "?solo n (AtWhile, q1, tr1) = final (?tm q1 tr1)"
            using "1.IH" [OF ne Some g [symmetric] refl b [symmetric] Inr sf refl]
            by blast
          have "?solo 2 (AtWhile, q, tr) = (AtWhile, q1, tr1)"
            using ne Some g b Inr False by (simp add: eval_nat_numeral)
          then have "?solo (2 + n) (AtWhile, q, tr) = final (?tm q1 tr1)"
            using n by (simp only: solo_add)
          moreover have "?tm q tr = ?tm q1 tr1"
            using ne Some g b Inr False by (subst thread_manager.simps) simp
          ultimately show ?thesis by metis
        qed
      qed
    qed
  qed
qed







subsection \<open>What each method adds to the trace\<close>

lemma proj_append [simp]:
  "creates (xs @ ys) = creates xs @ creates ys"
  "gets (xs @ ys) = gets xs @ gets ys"
  "removed (xs @ ys) = removed xs @ removed ys"
  "starts (xs @ ys) = starts xs @ starts ys"
  "uses (xs @ ys) = uses xs @ uses ys"
  "puts (xs @ ys) = puts xs @ puts ys"
  by (simp_all add: creates_def gets_def removed_def starts_def uses_def puts_def)

lemma proj_Nil [simp]:
  "creates [] = []" "gets [] = []" "removed [] = []" "starts [] = []" "uses [] = []" "puts [] = []"
  by (simp_all add: creates_def gets_def removed_def starts_def uses_def puts_def)

lemma proj_Cons [simp]:
  "creates (e # xs) = created e @ creates xs"
  "gets (e # xs) = got e @ gets xs"
  "removed (e # xs) = taken e @ removed xs"
  "starts (e # xs) = started e @ starts xs"
  "uses (e # xs) = used e @ uses xs"
  "puts (e # xs) = put_of e @ puts xs"
  by (simp_all add: creates_def gets_def removed_def starts_def uses_def puts_def)

lemma gets_subset_removed: "set (gets tr) \<subseteq> set (removed tr)"
proof (induction tr)
  case Nil
  show ?case by simp
next
  case (Cons e tr)
  then show ?case by (cases e) auto
qed

lemma own_proj:
  "own e \<Longrightarrow> created e = [] \<and> got e = [] \<and> taken e = [] \<and> started e = []
     \<and> used e = [] \<and> put_of e = []"
  by (cases e) simp_all

lemma list_all_own_proj:
  "list_all own evs \<Longrightarrow>
     creates evs = [] \<and> gets evs = [] \<and> removed evs = [] \<and> starts evs = []
     \<and> uses evs = [] \<and> puts evs = []"
  by (induction evs) (auto dest: own_proj)

lemma log_own: "\<exists>evs. log self m tr = tr @ evs \<and> list_all own evs"
  by (simp add: log_def)

lemma local_to_Nil [simp]: "local_to a i []"
  by (simp add: local_to_def)

lemma local_to_append [simp]: "local_to a i (xs @ ys) \<longleftrightarrow> local_to a i xs \<and> local_to a i ys"
  by (auto simp: local_to_def)

lemma local_to_Cons_own [simp]: "own e \<Longrightarrow> local_to a i (e # evs) \<longleftrightarrow> local_to a i evs"
  by (cases e) (simp_all add: local_to_def)

lemma creates_Cons_own [simp]: "own e \<Longrightarrow> creates (e # evs) = creates evs"
  by (cases e) simp_all

lemma log_events:
  "\<exists>evs. log self m tr = tr @ evs \<and> local_to a i evs \<and> creates evs = []"
  by (simp add: log_def)

lemma rotate_tor_ip_events:
  "\<exists>evs. snd (rotate_tor_ip self env i tr) = tr @ evs \<and> local_to a i evs \<and> creates evs = []"
  by (auto simp: rotate_tor_ip_def is_port_open_def extern_def log_def Let_def
           split: option.splits)

lemma execute_function_events:
  "\<exists>evs. snd (execute_function self env user_function a i tr) = tr @ evs
     \<and> local_to a i evs \<and> creates evs = []"
  by (auto simp: execute_function_def configure_selenium_with_tor_def call_user_def extern_def
           local_to_def split: option.splits)

lemma retry_loop_events:
  "\<exists>evs. snd (retry_loop self env user_function n a i tr) = tr @ evs
     \<and> local_to a i evs \<and> creates evs = []"
proof (induction n arbitrary: tr)
  case 0
  show ?case by simp
next
  case (Suc n)
  obtain r1 tr1 where x: "execute_function self env user_function a i tr = (r1, tr1)"
    by (cases "execute_function self env user_function a i tr")
  obtain evs1 where 1: "tr1 = tr @ evs1" "local_to a i evs1" "creates evs1 = []"
    using execute_function_events [of self env user_function a i tr] x by auto
  show ?case
  proof (cases r1)
    case (Inr u)
    with x 1 show ?thesis by simp
  next
    case (Inl e)
    show ?thesis
    proof (cases "is_Exception e")
      case False
      with Inl x 1 show ?thesis by simp
    next
      case True
      obtain evs2 where 2: "log self (Msg_retrying a i e) tr1 = tr1 @ evs2"
          "local_to a i evs2" "creates evs2 = []"
        using log_events by blast
      obtain r3 tr3 where r: "rotate_tor_ip self env i (tr1 @ evs2) = (r3, tr3)"
        by (cases "rotate_tor_ip self env i (tr1 @ evs2)")
      obtain evs3 where 3: "tr3 = (tr1 @ evs2) @ evs3" "local_to a i evs3" "creates evs3 = []"
        using rotate_tor_ip_events [of self env i "tr1 @ evs2" a] r by auto
      show ?thesis
      proof (cases r3)
        case (Inl e')
        have "snd (retry_loop self env user_function (Suc n) a i tr) = tr @ (evs1 @ evs2 @ evs3)"
          using x \<open>r1 = Inl e\<close> True 2 r Inl 1 3 by simp
        with 1 2 3 show ?thesis by (intro exI [of _ "evs1 @ evs2 @ evs3"]) simp
      next
        case (Inr u)
        obtain evs4 where 4: "snd (retry_loop self env user_function n a i tr3) = tr3 @ evs4"
            "local_to a i evs4" "creates evs4 = []"
          using Suc by blast
        have "snd (retry_loop self env user_function (Suc n) a i tr)
                = tr @ (evs1 @ evs2 @ evs3 @ evs4)"
          using x \<open>r1 = Inl e\<close> True 2 r Inr 1 3 4 by simp
        with 1 2 3 4 show ?thesis by (intro exI [of _ "evs1 @ evs2 @ evs3 @ evs4"]) simp
      qed
    qed
  qed
qed

lemma create_tor_instance_events:
  "\<exists>evs. snd (create_tor_instance self env i tr) = tr @ evs
     \<and> local_to a j evs \<and> creates evs = [i]"
  by (auto simp: create_tor_instance_def extern_def log_def local_to_def split: option.splits)

lemma handle_action_events:
  "\<exists>evs. snd (handle_action self env user_function a tr) = tr @ evs
     \<and> local_to a (a mod total_instances self) evs
     \<and> creates evs = (if total_instances self \<noteq> 0 \<and> a < total_instances self
                        then [a mod total_instances self] else [])"
proof (cases "total_instances self = 0")
  case True
  then show ?thesis by (simp add: handle_action_def py_mod_def)
next
  case False
  let ?i = "a mod total_instances self"
  show ?thesis
  proof (cases "a < total_instances self")
    case False
    with \<open>total_instances self \<noteq> 0\<close> retry_loop_events [of self env user_function 5 a ?i tr]
    show ?thesis by (simp add: handle_action_def py_mod_def)
  next
    case True
    obtain r1 tr1 where c: "create_tor_instance self env ?i tr = (r1, tr1)"
      by (cases "create_tor_instance self env ?i tr")
    obtain evs1 where 1: "tr1 = tr @ evs1" "local_to a ?i evs1" "creates evs1 = [?i]"
      using create_tor_instance_events [of self env ?i tr a ?i] c by auto
    show ?thesis
    proof (cases r1)
      case (Inl e)
      with c 1 True \<open>total_instances self \<noteq> 0\<close> show ?thesis
        by (simp add: handle_action_def py_mod_def)
    next
      case (Inr u)
      obtain evs2 where 2:
        "snd (retry_loop self env user_function 5 a ?i (tr1 @ [Sleep 2])) = (tr1 @ [Sleep 2]) @ evs2"
        "local_to a ?i evs2" "creates evs2 = []"
        using retry_loop_events by blast
      have "snd (handle_action self env user_function a tr) = tr @ (evs1 @ [Sleep 2] @ evs2)"
        using c Inr 1 2 True \<open>total_instances self \<noteq> 0\<close>
        by (simp add: handle_action_def py_mod_def)
      with 1 2 True \<open>total_instances self \<noteq> 0\<close> show ?thesis
        by (intro exI [of _ "evs1 @ [Sleep 2] @ evs2"]) simp
    qed
  qed
qed

lemma loop_body_events:
  assumes "loop_body self env user_function check_stop_func a q tr = (r, q', tr')"
  shows "\<exists>evs. tr' = tr @ evs
     \<and> local_to a (a mod total_instances self) evs
     \<and> creates evs = (if total_instances self \<noteq> 0 \<and> a < total_instances self
                        then [a mod total_instances self] else [])"
proof -
  obtain r1 tr1 where h: "handle_action self env user_function a tr = (r1, tr1)"
    by (cases "handle_action self env user_function a tr")
  obtain evs where 1: "tr1 = tr @ evs" "local_to a (a mod total_instances self) evs"
     "creates evs = (if total_instances self \<noteq> 0 \<and> a < total_instances self
                        then [a mod total_instances self] else [])"
    using handle_action_events [of self env user_function a tr] h by auto
  from assms h have "tr' = tr1 \<or> (\<exists>b. tr' = tr1 @ [CheckStop b])"
    by (auto simp: loop_body_def split: sum.splits option.splits)
  then show ?thesis
  proof
    assume "tr' = tr1"
    with 1 show ?thesis by blast
  next
    assume "\<exists>b. tr' = tr1 @ [CheckStop b]"
    then obtain b where "tr' = tr @ (evs @ [CheckStop b])" using 1 by auto
    with 1 show ?thesis by (intro exI [of _ "evs @ [CheckStop b]"]) simp
  qed
qed


lemma extern_own: "own ev \<Longrightarrow> \<exists>evs. snd (extern env ev tr) = tr @ evs \<and> list_all own evs"
  by (simp add: extern_def split: option.splits)

lemma is_port_open_own: "\<exists>evs. snd (is_port_open env port tr) = tr @ evs \<and> list_all own evs"
  by (simp add: is_port_open_def extern_def Let_def split: option.splits)

lemma clean_up_port_own: "\<exists>evs. snd (clean_up_port env port tr) = tr @ evs \<and> list_all own evs"
proof -
  obtain r1 tr1 where 1: "is_port_open env port tr = (r1, tr1)"
    by (cases "is_port_open env port tr")
  obtain evs1 where e1: "tr1 = tr @ evs1" "list_all own evs1"
    using is_port_open_own [of env port tr] 1 by auto
  show ?thesis
  proof (cases r1)
    case (Inl e)
    with 1 e1 show ?thesis by (simp add: clean_up_port_def)
  next
    case (Inr o1)
    let ?tr = "if o1 then tr1 @ [Fuser port] else tr1"
    obtain r2 tr2 where 2: "is_port_open env (port + 101) ?tr = (r2, tr2)"
      by (cases "is_port_open env (port + 101) ?tr")
    obtain evs2 where e2: "tr2 = ?tr @ evs2" "list_all own evs2"
      using is_port_open_own [of env "port + 101" ?tr] 2 by auto
    let ?evs = "evs1 @ (if o1 then [Fuser port] else []) @ evs2"
    have t: "tr2 = tr @ ?evs" "list_all own ?evs"
      using e1 e2 by simp_all
    show ?thesis
    proof (cases r2)
      case (Inl e)
      with 1 2 \<open>r1 = Inr o1\<close> t show ?thesis
        by (intro exI [of _ ?evs]) (simp add: clean_up_port_def)
    next
      case (Inr o2)
      with 1 2 \<open>r1 = Inr o1\<close> t show ?thesis
        by (intro exI [of _ "?evs @ (if o2 then [Fuser (port + 101)] else [])"])
           (simp add: clean_up_port_def)
    qed
  qed
qed

lemma clean_up_loop_own:
  "\<exists>evs. snd (clean_up_loop env ports tr) = tr @ evs \<and> list_all own evs"
proof (induction ports arbitrary: tr)
  case Nil
  show ?case by simp
next
  case (Cons port ports)
  obtain r1 tr1 where 1: "clean_up_port env port tr = (r1, tr1)"
    by (cases "clean_up_port env port tr")
  obtain evs1 where e1: "tr1 = tr @ evs1" "list_all own evs1"
    using clean_up_port_own [of env port tr] 1 by auto
  show ?case
  proof (cases r1)
    case (Inl e)
    with 1 e1 show ?thesis by simp
  next
    case (Inr u)
    obtain evs2 where 2: "snd (clean_up_loop env ports tr1) = tr1 @ evs2" "list_all own evs2"
      using Cons by blast
    from 1 Inr e1 2 show ?thesis
      by (intro exI [of _ "evs1 @ evs2"]) simp
  qed
qed

lemma clean_up_own: "\<exists>evs. snd (clean_up self env tr) = tr @ evs \<and> list_all own evs"
proof -
  obtain l1 where l1: "log self Msg_cleaning tr = tr @ l1" "list_all own l1"
    using log_own by blast
  obtain r1 tr1 where 1: "extern env Killall (tr @ l1) = (r1, tr1)"
    by (cases "extern env Killall (tr @ l1)")
  obtain evs1 where e1: "tr1 = (tr @ l1) @ evs1" "list_all own evs1"
    using extern_own [of Killall env "tr @ l1"] 1 by auto
  show ?thesis
  proof (cases r1)
    case (Inl e)
    with l1 1 e1 show ?thesis
      by (intro exI [of _ "l1 @ evs1"]) (simp add: clean_up_def)
  next
    case k: (Inr u)
    let ?tr1 = "tr1 @ [Sleep 1]"
    obtain r2 tr2 where 2: "clean_up_loop env (clean_up_ports self) ?tr1 = (r2, tr2)"
      by (cases "clean_up_loop env (clean_up_ports self) ?tr1")
    obtain evs2 where e2: "tr2 = ?tr1 @ evs2" "list_all own evs2"
      using clean_up_loop_own [of env "clean_up_ports self" ?tr1] 2 by auto
    let ?evs2 = "l1 @ evs1 @ [Sleep 1] @ evs2"
    have t2: "tr2 = tr @ ?evs2" "list_all own ?evs2"
      using l1 e1 e2 by simp_all
    show ?thesis
    proof (cases r2)
      case (Inl e)
      with l1 1 k 2 t2 show ?thesis
        by (intro exI [of _ ?evs2]) (simp add: clean_up_def)
    next
      case l: (Inr u2)
      let ?x = "if path_exists env tr2 then extern env Rmtree (tr2 @ [PathExists True])
                else (Inr (), tr2 @ [PathExists False])"
      obtain r3 tr3 where 3: "?x = (r3, tr3)"
        by (cases ?x)
      have "\<exists>evs. snd ?x = tr2 @ evs \<and> list_all own evs"
      proof (cases "path_exists env tr2")
        case True
        obtain evs where "snd (extern env Rmtree (tr2 @ [PathExists True]))
                            = (tr2 @ [PathExists True]) @ evs" "list_all own evs"
          using extern_own [of Rmtree env "tr2 @ [PathExists True]"] by auto
        with True show ?thesis
          by (intro exI [of _ "PathExists True # evs"]) simp
      next
        case False
        then show ?thesis by simp
      qed
      then obtain evs3 where e3: "tr3 = tr2 @ evs3" "list_all own evs3"
        using 3 by auto
      let ?evs3 = "?evs2 @ evs3"
      have t3: "tr3 = tr @ ?evs3" "list_all own ?evs3"
        using t2 e3 by simp_all
      show ?thesis
      proof (cases r3)
        case (Inl e)
        with l1 1 k 2 l 3 t3 show ?thesis
          by (intro exI [of _ ?evs3]) (simp add: clean_up_def)
      next
        case (Inr u3)
        obtain l2 where l2: "log self Msg_cleanup_completed tr3 = tr3 @ l2" "list_all own l2"
          using log_own by blast
        with l1 1 k 2 l 3 Inr t3 show ?thesis
          by (intro exI [of _ "?evs3 @ l2 @ [Sleep 3]"]) (simp add: clean_up_def)
      qed
    qed
  qed
qed

lemma clean_up_proj:
  "creates (snd (clean_up self env [])) = []" "gets (snd (clean_up self env [])) = []"
  "removed (snd (clean_up self env [])) = []" "starts (snd (clean_up self env [])) = []"
  "uses (snd (clean_up self env [])) = []" "puts (snd (clean_up self env [])) = []"
proof -
  obtain evs where e: "snd (clean_up self env []) = [] @ evs" "list_all own evs"
    using clean_up_own by blast
  with list_all_own_proj [OF e(2)]
  show "creates (snd (clean_up self env [])) = []" "gets (snd (clean_up self env [])) = []"
    "removed (snd (clean_up self env [])) = []" "starts (snd (clean_up self env [])) = []"
    "uses (snd (clean_up self env [])) = []" "puts (snd (clean_up self env [])) = []"
    by simp_all
qed

lemma Put_proj:
  "creates (map Put xs) = []" "gets (map Put xs) = []" "removed (map Put xs) = []"
  "starts (map Put xs) = []" "uses (map Put xs) = []" "puts (map Put xs) = xs"
  by (induction xs) simp_all




subsection \<open>Every state of a run\<close>

lemma fold_Queue_put:
  "fold Queue_put xs (q, tr) =
     (q\<lparr> items := items q @ xs, unfinished_tasks := unfinished_tasks q + length xs \<rparr>,
      tr @ map Put xs)"
  by (induction xs arbitrary: q tr) (simp_all add: Queue_put_def)

text \<open>
  \<^verbatim>\<open>run\<close> ends with the exception of \<^verbatim>\<open>clean_up\<close>, before there is a queue or a thread, or
  the threads start on the seeded queue.
\<close>

lemma run_start_eq:
  "run_start self env num_actions =
     (case fst (clean_up self env []) of
        Inl e \<Rightarrow> Inl e
      | Inr u \<Rightarrow>
          Inr \<lparr> shared = \<lparr> items = py_range 0 num_actions 1,
                              unfinished_tasks = length (py_range 0 num_actions 1) \<rparr>,
                 history = snd (clean_up self env []) @ map Put (py_range 0 num_actions 1),
                 workers = [], main = Starting \<rparr>)"
  by (simp add: run_start_def fold_Queue_put Queue_def split: prod.splits sum.splits)

lemma run_clean_up_raises:
  "run self env num_actions user_function check_stop_func schedule = Inl e
     \<longleftrightarrow> fst (clean_up self env []) = Inl e"
  by (simp add: run_def run_start_eq split: sum.splits)

lemma trace_inv_start:
  "run_start self env num_actions = Inr s \<Longrightarrow> trace_inv self env num_actions s []"
  by (auto simp: trace_inv_def run_start_eq split: sum.splits)

lemma pool_inv_start:
  "run_start self env num_actions = Inr s \<Longrightarrow> pool_inv self num_actions s"
  by (auto simp: pool_inv_def run_start_eq split: sum.splits)

lemma pool_inv_main_step:
  assumes "pool_inv self num_actions s" and "main_step self num_actions s = Some s'"
  shows "pool_inv self num_actions s'"
proof (cases "main s")
  case Starting
  with assms show ?thesis
    by (auto simp: pool_inv_def main_step_def split: if_splits)
next
  case (Joining k)
  show ?thesis
  proof (cases "k < length (workers s)")
    case True
    with assms Joining have t: "terminated (workers s ! k)"
        and s': "s' = s\<lparr> main := Joining (Suc k), history := history s @ [Join k] \<rparr>"
      by (auto simp: main_step_def split: if_splits)
    with assms(1) Joining True show ?thesis
      by (auto simp: pool_inv_def less_Suc_eq)
  next
    case False
    with assms Joining have s': "s' = s\<lparr> main := Done \<rparr>"
      by (auto simp: main_step_def)
    from assms(1) Joining False have "\<forall>j<length (workers s). terminated (workers s ! j)"
      by (auto simp: pool_inv_def)
    then have "\<forall>p \<in> set (workers s). terminated p"
      by (auto simp: in_set_conv_nth)
    with assms(1) Joining s' show ?thesis
      by (auto simp: pool_inv_def)
  qed
next
  case Done
  with assms show ?thesis by (simp add: main_step_def)
qed

lemma worker_step_not_terminated:
  "worker_step self env user_function check_stop_func p q tr = Some x \<Longrightarrow> \<not> terminated p"
  by (cases p) simp_all

lemma pool_inv_worker_step:
  assumes inv: "pool_inv self num_actions s" and k: "k < length (workers s)"
    and nt: "\<not> terminated (workers s ! k)"
  shows "pool_inv self num_actions (s\<lparr> workers := (workers s)[k := p], shared := q, history := tr \<rparr>)"
proof -
  let ?s' = "s\<lparr> workers := (workers s)[k := p], shared := q, history := tr \<rparr>"
  have nd: "main s \<noteq> Done"
  proof
    assume "main s = Done"
    with inv have "\<forall>p \<in> set (workers s). terminated p" by (simp add: pool_inv_def)
    with k nt show False using nth_mem by blast
  qed
  have j: "\<forall>k'. main ?s' = Joining k' \<longrightarrow>
            k' \<le> length (workers ?s') \<and> (\<forall>j<k'. terminated (workers ?s' ! j))"
  proof (intro allI impI conjI)
    fix k' assume m: "main ?s' = Joining k'"
    with inv show "k' \<le> length (workers ?s')" by (simp add: pool_inv_def)
    fix j assume "j < k'"
    with inv m have t: "terminated (workers s ! j)" by (simp add: pool_inv_def)
    with nt have "j \<noteq> k" by auto
    with t show "terminated (workers ?s' ! j)" by simp
  qed
  from inv have "length (workers ?s') \<le> nat (min num_actions (max_threads self))"
    and "main ?s' \<noteq> Starting \<longrightarrow> length (workers ?s') = nat (min num_actions (max_threads self))"
    by (simp_all add: pool_inv_def)
  moreover from nd have "main ?s' = Done \<longrightarrow> (\<forall>p \<in> set (workers ?s'). terminated p)"
    by simp
  ultimately show ?thesis
    using j unfolding pool_inv_def by blast
qed


lemma loop_body_unfinished:
  "unfinished_tasks q - 1
     \<le> unfinished_tasks (fst (snd (loop_body self env user_function check_stop_func a q tr)))"
  by (simp add: loop_body_def Queue_task_done_def split: prod.splits sum.splits option.splits)

lemma worker_step_effect:
  assumes "worker_step self env user_function check_stop_func p q tr = Some (p', q', tr')"
  shows "\<exists>evs. tr' = tr @ evs \<and> puts evs = [] \<and> starts evs = []
      \<and> removed evs @ items q' = items q
      \<and> (length (items q) \<le> unfinished_tasks q \<longrightarrow> length (items q') \<le> unfinished_tasks q')
      \<and> creates evs = map (\<lambda>a. a mod total_instances self)
           (filter (\<lambda>a. total_instances self \<noteq> 0 \<and> a < total_instances self) (gets evs))
      \<and> (\<forall>(a, i) \<in> set (uses evs). a \<in> set (gets evs) \<and> i = a mod total_instances self)"
proof (cases p)
  case AtWhile
  with assms show ?thesis by auto
next
  case AtDrainWhile
  with assms show ?thesis by auto
next
  case Finished
  with assms show ?thesis by simp
next
  case (Crashed e)
  with assms show ?thesis by simp
next
  case AtDrainGet
  with assms show ?thesis
    by (auto simp: Queue_get_nowait_def Queue_task_done_def
             split: list.splits sum.splits if_splits)
next
  case AtGet
  with assms obtain a rest where q: "items q = a # rest"
    by (auto simp: Queue_get_def split: list.splits)
  let ?q0 = "q\<lparr> items := rest \<rparr>"
  obtain r q1 tr1 where b:
    "loop_body self env user_function check_stop_func a ?q0 (tr @ [Get a]) = (r, q1, tr1)"
    by (cases "loop_body self env user_function check_stop_func a ?q0 (tr @ [Get a])")
  with assms AtGet q have out: "q' = q1" "tr' = tr1"
    by (auto simp: Queue_get_def split: sum.splits bool.splits if_splits)
  obtain evs where e: "tr1 = (tr @ [Get a]) @ evs"
     "local_to a (a mod total_instances self) evs"
     "creates evs = (if total_instances self \<noteq> 0 \<and> a < total_instances self
                        then [a mod total_instances self] else [])"
    using loop_body_events [OF b] by blast
  have i: "items q1 = rest"
    using loop_body_items [OF b] by simp
  have u: "length (items q) \<le> unfinished_tasks q \<longrightarrow> length (items q1) \<le> unfinished_tasks q1"
    using b q i loop_body_unfinished [of ?q0 self env user_function check_stop_func a "tr @ [Get a]"]
    by auto
  show ?thesis
    using e i u q out
    by (intro exI [of _ "Get a # evs"]) (auto simp: local_to_def)
qed


lemma mod_filter_nonneg:
  "\<forall>a \<in> set xs. (0::int) \<le> a \<Longrightarrow>
     map (\<lambda>a. a mod t) (filter (\<lambda>a. t \<noteq> 0 \<and> a < t) xs) = filter (\<lambda>a. a < t) xs"
  by (induction xs) auto

lemma trace_inv_worker_step:
  assumes inv: "trace_inv self env num_actions s rest"
    and w: "worker_step self env user_function check_stop_func (workers s ! k) (shared s)
              (history s) = Some (p, q, tr)"
  shows "\<exists>rest'. trace_inv self env num_actions
            (s\<lparr> workers := (workers s)[k := p], shared := q, history := tr \<rparr>) rest'"
proof -
  let ?t = "total_instances self"
  obtain evs where e: "tr = history s @ evs" "puts evs = []" "starts evs = []"
      "removed evs @ items q = items (shared s)"
      "length (items (shared s)) \<le> unfinished_tasks (shared s)
         \<longrightarrow> length (items q) \<le> unfinished_tasks q"
      "creates evs = map (\<lambda>a. a mod ?t) (filter (\<lambda>a. ?t \<noteq> 0 \<and> a < ?t) (gets evs))"
      "\<forall>(a, i) \<in> set (uses evs). a \<in> set (gets evs) \<and> i = a mod ?t"
    using worker_step_effect [OF w] by blast
  from inv have r: "removed rest @ items (shared s) = py_range 0 num_actions 1"
    by (simp add: trace_inv_def)
  have "set (gets evs) \<subseteq> set (removed evs)" by (rule gets_subset_removed)
  also have "\<dots> \<subseteq> set (items (shared s))" using e(4) [symmetric] by simp
  also have "\<dots> \<subseteq> set (py_range 0 num_actions 1)" using r [symmetric] by simp
  finally have "\<forall>a \<in> set (gets evs). 0 \<le> a"
    using py_range_lower by blast
  then have c: "creates evs = filter (\<lambda>a. a < ?t) (gets evs)"
    using e(6) by (simp add: mod_filter_nonneg)
  have "trace_inv self env num_actions
          (s\<lparr> workers := (workers s)[k := p], shared := q, history := tr \<rparr>) (rest @ evs)"
    using inv e(1,2,3,5,7) c r e(4) [symmetric]
    by (auto simp: trace_inv_def)
  then show ?thesis ..
qed

lemma trace_inv_main_step:
  assumes inv: "trace_inv self env num_actions s rest"
    and m: "main_step self num_actions s = Some s'"
  shows "\<exists>rest'. trace_inv self env num_actions s' rest'"
proof (cases "main s")
  case Starting
  show ?thesis
  proof (cases "int (length (workers s)) < min num_actions (max_threads self)")
    case True
    with m Starting have "s' = s\<lparr> workers := workers s @ [AtWhile],
                        history := history s @ [Start (length (workers s))] \<rparr>"
      by (auto simp: main_step_def split: if_splits)
    with inv have "trace_inv self env num_actions s' (rest @ [Start (length (workers s))])"
      by (simp add: trace_inv_def)
    then show ?thesis ..
  next
    case False
    with m Starting have "s' = s\<lparr> main := Joining 0 \<rparr>"
      by (auto simp: main_step_def split: if_splits)
    with inv have "trace_inv self env num_actions s' rest"
      by (simp add: trace_inv_def)
    then show ?thesis ..
  qed
next
  case (Joining k)
  show ?thesis
  proof (cases "k < length (workers s)")
    case True
    with m Joining have "s' = s\<lparr> main := Joining (Suc k), history := history s @ [Join k] \<rparr>"
      by (auto simp: main_step_def split: if_splits)
    with inv have "trace_inv self env num_actions s' (rest @ [Join k])"
      by (simp add: trace_inv_def)
    then show ?thesis ..
  next
    case False
    with m Joining have "s' = s\<lparr> main := Done \<rparr>"
      by (simp add: main_step_def)
    with inv have "trace_inv self env num_actions s' rest"
      by (simp add: trace_inv_def)
    then show ?thesis ..
  qed
next
  case Done
  with m show ?thesis by (simp add: main_step_def)
qed

lemma run_inv_step:
  assumes "run_inv self env num_actions s"
    and "step self env num_actions user_function check_stop_func t s = Some s'"
  shows "run_inv self env num_actions s'"
proof (cases t)
  case Main
  with assms show ?thesis
    using trace_inv_main_step pool_inv_main_step
    by (fastforce simp: run_inv_def step_def)
next
  case (Worker k)
  with assms(2) obtain p q tr where k: "k < length (workers s)"
    and w: "worker_step self env user_function check_stop_func (workers s ! k) (shared s)
              (history s) = Some (p, q, tr)"
    and s': "s' = s\<lparr> workers := (workers s)[k := p], shared := q, history := tr \<rparr>"
    by (auto simp: step_def split: if_splits option.splits)
  from w have "\<not> terminated (workers s ! k)"
    by (rule worker_step_not_terminated)
  with assms(1) k have "pool_inv self num_actions s'"
    unfolding s' run_inv_def by (intro pool_inv_worker_step) auto
  moreover from assms(1) w have "\<exists>rest'. trace_inv self env num_actions s' rest'"
    unfolding s' run_inv_def using trace_inv_worker_step by blast
  ultimately show ?thesis by (simp add: run_inv_def)
qed

lemma run_inv_exec:
  "run_inv self env num_actions s \<Longrightarrow>
   exec self env num_actions user_function check_stop_func schedule s = Some s' \<Longrightarrow>
   run_inv self env num_actions s'"
proof (induction schedule arbitrary: s)
  case Nil
  then show ?case by simp
next
  case (Cons t ts)
  then show ?case
    by (auto split: option.splits dest: run_inv_step)
qed

lemma run_inv_run:
  assumes "run self env num_actions user_function check_stop_func schedule = Inr (Some s)"
  shows "run_inv self env num_actions s"
proof -
  from assms obtain s0 where 0: "run_start self env num_actions = Inr s0"
    and e: "exec self env num_actions user_function check_stop_func schedule s0 = Some s"
    by (auto simp: run_def split: sum.splits)
  from 0 have "run_inv self env num_actions s0"
    using trace_inv_start pool_inv_start by (fastforce simp: run_inv_def)
  then show ?thesis
    using e by (rule run_inv_exec)
qed




text \<open>
  C9. In every state that \<^verbatim>\<open>run\<close> reaches once it has a queue (\<^verbatim>\<open>run\<close> ends with the
  exception of \<^verbatim>\<open>clean_up\<close> otherwise, \<open>run_clean_up_raises\<close>): \<^verbatim>\<open>clean_up\<close> has
  returned; the trace begins with the trace of \<^verbatim>\<open>clean_up\<close>, followed by \<^verbatim>\<open>put(0)\<close> ... \<^verbatim>\<open>put(num_actions - 1)\<close> in order, and
  only then come the starts of the workers, numbered as they are created, and whatever
  the workers do; nothing else is ever put; what has been taken off the queue followed by
  what is left in it is the seed; there are never more than
  \<^verbatim>\<open>min(num_actions, max_threads)\<close> workers, and exactly that many (none when that is
  negative) once the starting loop is left; and when \<^verbatim>\<open>run\<close> has returned, every worker
  has left \<^verbatim>\<open>thread_manager\<close>.
\<close>

theorem run_resets_seeds_launches_joins:
  assumes "run self env num_actions user_function check_stop_func schedule = Inr (Some s)"
  shows "fst (clean_up self env []) = Inr ()
     \<and> (\<exists>rest. history s = snd (clean_up self env []) @ map Put (map int [0..<nat num_actions]) @ rest
            \<and> puts rest = [] \<and> starts rest = [0..<length (workers s)])
     \<and> puts (history s) = map int [0..<nat num_actions]
     \<and> starts (history s) = [0..<length (workers s)]
     \<and> removed (history s) @ items (shared s) = map int [0..<nat num_actions]
     \<and> length (workers s) \<le> nat (min num_actions (max_threads self))
     \<and> (main s \<noteq> Starting \<longrightarrow> length (workers s) = nat (min num_actions (max_threads self)))
     \<and> (main s = Done \<longrightarrow> (\<forall>p \<in> set (workers s). terminated p))
     \<and> (0 \<le> num_actions \<and> 0 \<le> max_threads self \<and> main s \<noteq> Starting
          \<longrightarrow> int (length (workers s)) = min num_actions (max_threads self))"
proof -
  from run_inv_run [OF assms] obtain rest where
    inv: "trace_inv self env num_actions s rest" and pool: "pool_inv self num_actions s"
    by (auto simp: run_inv_def)
  from inv have h: "history s = snd (clean_up self env []) @ map Put (map int [0..<nat num_actions]) @ rest"
    and p: "puts rest = []" and st: "starts rest = [0..<length (workers s)]"
    and r: "removed rest @ items (shared s) = map int [0..<nat num_actions]"
    by (simp_all add: trace_inv_def py_range_count)
  have "puts (history s) = map int [0..<nat num_actions]"
    "starts (history s) = [0..<length (workers s)]"
    "removed (history s) @ items (shared s) = map int [0..<nat num_actions]"
    using p st r unfolding h by (simp_all add: clean_up_proj Put_proj del: map_map)
  moreover from pool have "length (workers s) \<le> nat (min num_actions (max_threads self))"
    "main s \<noteq> Starting \<longrightarrow> length (workers s) = nat (min num_actions (max_threads self))"
    "main s = Done \<longrightarrow> (\<forall>p \<in> set (workers s). terminated p)"
    "0 \<le> num_actions \<and> 0 \<le> max_threads self \<and> main s \<noteq> Starting
          \<longrightarrow> int (length (workers s)) = min num_actions (max_threads self)"
    by (auto simp: pool_inv_def)
  moreover from assms have "fst (clean_up self env []) = Inr ()"
    by (auto simp: run_def run_start_eq split: sum.splits)
  ultimately show ?thesis
    using h p st by blast
qed

theorem run_resets_seeds_launches_joins_witness:
  "\<exists>s. run small_pool quiet 1 always_returns None
          [Main, Main, Worker 0, Worker 0, Worker 0, Main, Main] = Inr (Some s)
      \<and> main s = Done
      \<and> workers s = [Finished]
      \<and> length (workers s) = nat (min 1 (max_threads small_pool))
      \<and> puts (history s) = [0]
      \<and> starts (history s) = [0]
      \<and> fst (clean_up small_pool quiet []) = Inr ()
      \<and> take 11 (history s) = snd (clean_up small_pool quiet []) @ [Put 0]"
proof -
  let ?s = "\<lparr>shared = \<lparr>items = [], unfinished_tasks = 0\<rparr>,
     history =
       [Print Msg_cleaning, Killall, Sleep 1, Socket, Connect 9050 False, Socket,
        Connect 9151 False, PathExists False, Print Msg_cleanup_completed,
        Sleep 3, Put 0, Start 0, Get 0, Print (Msg_creating 0), Makedirs 0,
        WriteTorrc 0 9050 9151, Popen 0, Sleep 5, Print (Msg_created 0),
        Sleep 2, Chrome 9050 True, UserFunction 20 0 0, Quit 20, Join 0],
     workers = [Finished], main = Done\<rparr>"
  have r: "run small_pool quiet 1 always_returns None
          [Main, Main, Worker 0, Worker 0, Worker 0, Main, Main] = Inr (Some ?s)"
    by code_simp
  have c: "clean_up small_pool quiet []
      = (Inr (), [Print Msg_cleaning, Killall, Sleep 1, Socket, Connect 9050 False, Socket,
        Connect 9151 False, PathExists False, Print Msg_cleanup_completed, Sleep 3])"
    by code_simp
  note t = run_resets_seeds_launches_joins [OF r]
  note t [THEN conjunct2, THEN conjunct2, THEN conjunct2, THEN conjunct2, THEN conjunct2,
          THEN conjunct2, THEN conjunct1]
    t [THEN conjunct2, THEN conjunct2, THEN conjunct1]
    t [THEN conjunct2, THEN conjunct2, THEN conjunct2, THEN conjunct1]
  then have "length (workers ?s) = nat (min 1 (max_threads small_pool))"
    "puts (history ?s) = [0]" "starts (history ?s) = [0]"
    by (simp_all add: small_pool_def Torsel_def)
  moreover have "main ?s = Done" "workers ?s = [Finished]"
    "take 11 (history ?s) = snd (clean_up small_pool quiet []) @ [Put 0]"
    unfolding c by simp_all
  moreover note t [THEN conjunct1]
  ultimately show ?thesis
    using r by (intro exI [of _ ?s] conjI)
qed



subsection \<open>A worker waiting on the drained queue\<close>

text \<open>
  C5 at \<^verbatim>\<open>Torsel(total_instances=1, max_threads=2).run(3, f)\<close> with \<open>f\<close> returning: the
  two workers take the actions 0 and 1 and handle them; both then find the queue not
  empty, since action 2 is in it. Worker 0 takes action 2, handles it, finds the queue
  empty and returns. Worker 1 is then inside \<^verbatim>\<open>queue.get()\<close> on an empty queue to which
  nothing is ever put, the main thread has joined worker 0 and is inside \<^verbatim>\<open>join\<close> of
  worker 1, and no thread can take a step: \<^verbatim>\<open>run\<close> does not return.
\<close>

theorem worker_blocks_on_drained_queue:
  "\<exists>s. run small_pool quiet 3 always_returns None
          [Main, Main, Main, Worker 0, Worker 1, Worker 0, Worker 1, Worker 0, Worker 1,
           Worker 0, Worker 0, Main] = Inr (Some s)
      \<and> items (shared s) = [] \<and> workers s = [Finished, AtGet] \<and> main s = Joining 1
      \<and> (\<forall>t. step small_pool quiet 3 always_returns None t s = None)"
proof -
  let ?s = "\<lparr>shared = \<lparr>items = [], unfinished_tasks = 0\<rparr>,
     history =
       [Print Msg_cleaning, Killall, Sleep 1, Socket, Connect 9050 False, Socket,
        Connect 9151 False, PathExists False, Print Msg_cleanup_completed,
        Sleep 3, Put 0, Put 1, Put 2, Start 0, Start 1, Get 0,
        Print (Msg_creating 0), Makedirs 0, WriteTorrc 0 9050 9151, Popen 0,
        Sleep 5, Print (Msg_created 0), Sleep 2, Chrome 9050 True,
        UserFunction 23 0 0, Quit 23, Get 1, Chrome 9050 True,
        UserFunction 27 1 0, Quit 27, Get 2, Chrome 9050 True,
        UserFunction 31 2 0, Quit 31, Join 0],
     workers = [Finished, AtGet], main = Joining 1\<rparr>"
  have r: "run small_pool quiet 3 always_returns None
          [Main, Main, Main, Worker 0, Worker 1, Worker 0, Worker 1, Worker 0, Worker 1,
           Worker 0, Worker 0, Main] = Inr (Some ?s)"
    by code_simp
  have "step small_pool quiet 3 always_returns None t ?s = None" for t
  proof (cases t)
    case Main
    then show ?thesis by (simp add: step_def main_step_def)
  next
    case (Worker k)
    have "k = 0 \<or> k = 1 \<or> 2 \<le> k" by arith
    with Worker show ?thesis
      by (auto simp: step_def Queue_get_def)
  qed
  then have "\<forall>t. step small_pool quiet 3 always_returns None t ?s = None" ..
  moreover have "items (shared ?s) = []" "workers ?s = [Finished, AtGet]" "main ?s = Joining 1"
    by simp_all
  ultimately show ?thesis
    using r by (intro exI [of _ ?s] conjI)
qed

subsection \<open>A pool of no instances\<close>

lemma py_range_first: "1 \<le> n \<Longrightarrow> py_range 0 n 1 = 0 # py_range 1 n 1"
  by (subst py_range.simps) simp

text \<open>
  C10. With \<^verbatim>\<open>total_instances = 0\<close> every action ends in \<^verbatim>\<open>ZeroDivisionError\<close> at
  \<^verbatim>\<open>action_num % self.total_instances\<close>, before anything else is done with it; and when
  \<^verbatim>\<open>run\<close> is given at least one action and may start at least one worker, and
  \<^verbatim>\<open>clean_up\<close> has returned, the first worker takes action 0 and leaves
  \<^verbatim>\<open>thread_manager\<close> with that exception.
\<close>

theorem zero_instances_division_by_zero:
  assumes "total_instances self = 0" and "1 \<le> num_actions" and "1 \<le> max_threads self"
    and "fst (clean_up self env []) = Inr ()"
  shows "handle_action self env user_function action_num tr = (Inl ZeroDivisionError, tr)
     \<and> (\<exists>s. run self env num_actions user_function check_stop_func [Main, Worker 0, Worker 0]
               = Inr (Some s)
            \<and> workers s = [Crashed ZeroDivisionError])"
proof -
  have h: "handle_action self env user_function a t = (Inl ZeroDivisionError, t)" for a t
    using assms(1) by (simp add: handle_action_def py_mod_def)
  let ?s0 = "\<lparr> shared = \<lparr> items = py_range 0 num_actions 1,
                              unfinished_tasks = length (py_range 0 num_actions 1) \<rparr>,
                 history = snd (clean_up self env []) @ map Put (py_range 0 num_actions 1),
                 workers = [], main = Starting \<rparr>"
  have 0: "run_start self env num_actions = Inr ?s0"
    using assms(4) by (simp add: run_start_eq)
  have w: "workers ?s0 = []" "main ?s0 = Starting" "items (shared ?s0) = 0 # py_range 1 num_actions 1"
    using py_range_first [OF assms(2)] by simp_all
  let ?s1 = "?s0\<lparr> workers := [AtWhile], history := history ?s0 @ [Start 0] \<rparr>"
  have 1: "step self env num_actions user_function check_stop_func Main ?s0 = Some ?s1"
    using w assms(2,3) by (simp add: step_def main_step_def)
  let ?s2 = "?s1\<lparr> workers := [AtGet] \<rparr>"
  have 2: "step self env num_actions user_function check_stop_func (Worker 0) ?s1 = Some ?s2"
    using w by (simp add: step_def Queue_empty_def)
  obtain s3 where 3: "step self env num_actions user_function check_stop_func (Worker 0) ?s2 = Some s3"
    "workers s3 = [Crashed ZeroDivisionError]"
    using w h by (simp add: step_def Queue_get_def loop_body_def)
  from 0 1 2 3 have "run self env num_actions user_function check_stop_func [Main, Worker 0, Worker 0]
               = Inr (Some s3)"
    by (simp add: run_def)
  with 3(2) h show ?thesis by blast
qed

theorem zero_instances_division_by_zero_witness:
  "handle_action (Torsel\<lparr> total_instances := 0 \<rparr>) quiet always_returns 0 [Get 0]
      = (Inl ZeroDivisionError, [Get 0])
     \<and> (\<exists>s. run (Torsel\<lparr> total_instances := 0 \<rparr>) quiet 1 always_returns None
               [Main, Worker 0, Worker 0] = Inr (Some s)
            \<and> workers s = [Crashed ZeroDivisionError])"
proof -
  have c: "fst (clean_up (Torsel\<lparr> total_instances := 0 \<rparr>) quiet []) = Inr ()"
    by code_simp
  have "total_instances (Torsel\<lparr> total_instances := 0 \<rparr>) = 0"
    and "(1::int) \<le> 1"
    and "1 \<le> max_threads (Torsel\<lparr> total_instances := 0 \<rparr>)"
    by (simp_all add: Torsel_def)
  then show ?thesis
    using c by (rule zero_instances_division_by_zero)
qed

end
